theory Spec2Isabelle
  imports Complex_Main "HOL-Library.Multiset"
begin

section \<open>Arithmetic primitives\<close>

text \<open>
  \<^verbatim>\<open>gcd(a, b)\<close> of \<^verbatim>\<open>classical_factorization.py\<close> (and, word for word, of
  \<^verbatim>\<open>shors_algorithm.py\<close>): \<^verbatim>\<open>while b: a, b = b, a % b\<close>, then \<^verbatim>\<open>return a\<close>.
  Python's \<^verbatim>\<open>%\<close> on integers takes the sign of the divisor, as \<open>mod\<close> on \<open>int\<close> does.
\<close>

function gcd_py :: "int \<Rightarrow> int \<Rightarrow> int" where
  "gcd_py a b = (if b \<noteq> 0 then gcd_py b (a mod b) else a)"
  by pat_completeness auto
termination
  by (relation "measure (\<lambda>(a, b). nat \<bar>b\<bar>)") (auto simp: abs_mod_less)

declare gcd_py.simps [simp del]

section \<open>Exceptions, float library and random source\<close>

text \<open>
  The exceptions (instances of Python's \<^verbatim>\<open>Exception\<close>) that the modelled code can meet.
  A computation that may raise returns \<open>exn + 'a\<close>, with \<open>Inl\<close> for the raise.
\<close>

datatype exn = ValueError | OverflowError | ZeroDivisionError | OtherException

text \<open>
  The source computes square roots in floating point: \<^verbatim>\<open>int(n**0.5)\<close>,
  \<^verbatim>\<open>math.ceil(math.sqrt(n))\<close> and \<^verbatim>\<open>int(math.sqrt(b_sq))\<close>. Each of them is a parameter
  of the model, of type \<open>int \<Rightarrow> exn + int\<close>: whatever the float library returns, or the
  exception it raises (\<^verbatim>\<open>ValueError\<close> on a negative argument of \<^verbatim>\<open>math.sqrt\<close>,
  \<^verbatim>\<open>OverflowError\<close> on an integer too large for a float).

  \<open>exact_isqrt\<close> is the integer square root that these computations approximate; it is
  what a parameter is instantiated with when a concrete run is evaluated.
\<close>

fun exact_isqrt :: "int \<Rightarrow> int" where
  "exact_isqrt n =
     (if n < 1 then 0
      else let r = 2 * exact_isqrt (n div 4) in if (r + 1) * (r + 1) \<le> n then r + 1 else r)"

declare exact_isqrt.simps [simp del]

text \<open>
  The random source is a stream of raw draws. \<^verbatim>\<open>random.randint(a, b)\<close> raises
  \<^verbatim>\<open>ValueError\<close> on an empty range and otherwise consumes one draw, mapped into
  \<open>{a..b}\<close>; every value of the range is the outcome of some draw.
\<close>

type_synonym rng = "nat \<Rightarrow> int"

definition randint :: "int \<Rightarrow> int \<Rightarrow> rng \<Rightarrow> (exn + int) \<times> rng" where
  "randint a b rs =
     (if b < a then (Inl ValueError, rs)
      else (Inr (a + rs 0 mod (b - a + 1)), \<lambda>i. rs (Suc i)))"

text \<open>\<^verbatim>\<open>range(start, stop, step)\<close> for a positive step, as a list.\<close>

function range_py :: "int \<Rightarrow> int \<Rightarrow> int \<Rightarrow> int list" where
  "range_py start stop step =
     (if 0 < step \<and> start < stop then start # range_py (start + step) stop step else [])"
  by pat_completeness auto
termination
  by (relation "measure (\<lambda>(start, stop, step). nat (stop - start))") auto

declare range_py.simps [simp del]

definition SMALL_PRIME_LIMIT :: int where
  "SMALL_PRIME_LIMIT = 1000"

definition PRIME_THRESHOLD :: int where
  "PRIME_THRESHOLD = 1000000"

section \<open>Trial division\<close>

text \<open>
  The inner loop \<^verbatim>\<open>while n % i == 0: factors.append(i); n //= i\<close> of \<^verbatim>\<open>trial_division\<close>
  (with \<open>i = 2\<close> for the first loop of the source). The loop has no bound of its own (it spins
  on \<open>n = 0\<close>), so it is a partial function: \<open>None\<close> stands for a loop that never ends.
  The source only runs it with \<open>i \<ge> 2\<close>, so \<^verbatim>\<open>n % i\<close> never divides by zero.
\<close>

partial_function (option) divide_out :: "int \<Rightarrow> int \<Rightarrow> int list \<Rightarrow> (int \<times> int list) option" where
  "divide_out i n fs =
     (if n mod i = 0 then divide_out i (n div i) (fs @ [i]) else Some (n, fs))"

text \<open>
  The outer loop \<^verbatim>\<open>while i * i <= n: <inner loop>; i += 2\<close>, started by the source at \<open>i = 3\<close>.
\<close>

partial_function (option) odd_factors :: "int \<Rightarrow> int \<Rightarrow> int list \<Rightarrow> (int \<times> int list) option" where
  "odd_factors i n fs =
     (if i * i \<le> n
      then Option.bind (divide_out i n fs) (\<lambda>(n', fs'). odd_factors (i + 2) n' fs')
      else Some (n, fs))"

declare divide_out.simps [code] odd_factors.simps [code]

definition trial_division :: "int \<Rightarrow> int list option" where
  "trial_division n =
     (if n < 2 then Some []
      else Option.bind (divide_out 2 n []) (\<lambda>(n1, fs1).
           Option.bind (odd_factors 3 n1 fs1) (\<lambda>(n2, fs2).
           Some (if n2 > 2 then fs2 @ [n2] else fs2))))"

text \<open>Primality of an integer, the yardstick the results are measured against.\<close>

definition prime_int :: "int \<Rightarrow> bool" where
  "prime_int p \<longleftrightarrow> 2 \<le> p \<and> (\<forall>d \<in> {2..<p}. \<not> d dvd p)"


section \<open>Pollard's rho\<close>

text \<open>
  The loop of \<^verbatim>\<open>pollard_rho\<close>:
  \<^verbatim>\<open>while d == 1 and iteration < max_iterations\<close>, one tortoise move, two hare moves,
  \<^verbatim>\<open>d = gcd(abs(x - y), n)\<close>. It returns the final \<open>d\<close>.
\<close>

function pollard_loop :: "int \<Rightarrow> int \<Rightarrow> int \<Rightarrow> int \<Rightarrow> int \<Rightarrow> int \<Rightarrow> int \<Rightarrow> int" where
  "pollard_loop n c max_iterations x y d iteration =
     (if d = 1 \<and> iteration < max_iterations
      then let x' = (x * x + c) mod n;
               y' = (y * y + c) mod n;
               y'' = (y' * y' + c) mod n;
               d' = gcd_py \<bar>x' - y''\<bar> n
           in pollard_loop n c max_iterations x' y'' d' (iteration + 1)
      else d)"
  by pat_completeness auto
termination
  by (relation "measure (\<lambda>(n, c, max_iterations, x, y, d, iteration). nat (max_iterations - iteration))") auto

declare pollard_loop.simps [simp del]

text \<open>
  \<^verbatim>\<open>pollard_rho(n, max_iterations)\<close>. The result \<open>None\<close> is Python's \<^verbatim>\<open>None\<close>.
  An odd \<open>n\<close> is not zero, so \<^verbatim>\<open>% n\<close> in the loop does not divide by zero.
\<close>

definition pollard_rho :: "int \<Rightarrow> int \<Rightarrow> rng \<Rightarrow> (exn + int option) \<times> rng" where
  "pollard_rho n max_iterations rs =
     (if n mod 2 = 0 then (Inr (Some 2), rs)
      else case randint 2 (n - 1) rs of
        (Inl e, rs1) \<Rightarrow> (Inl e, rs1)
      | (Inr x, rs1) \<Rightarrow>
          (case randint 1 (n - 1) rs1 of
             (Inl e, rs2) \<Rightarrow> (Inl e, rs2)
           | (Inr c, rs2) \<Rightarrow>
               let d = pollard_loop n c max_iterations x x 1 0
               in (Inr (if d \<noteq> n then Some d else None), rs2)))"

text \<open>
  The branch of \<^verbatim>\<open>pollard_rho_factorize\<close> taken when \<^verbatim>\<open>pollard_rho\<close> found nothing:
  trial division below 10000, else \<^verbatim>\<open>[n]\<close>.
\<close>

definition fall_back :: "int \<Rightarrow> rng \<Rightarrow> ((exn + int list) \<times> rng) option" where
  "fall_back n rs =
     (if n < 10000 then map_option (\<lambda>fs. (Inr fs, rs)) (trial_division n)
      else Some (Inr [n], rs))"

text \<open>
  \<^verbatim>\<open>pollard_rho_factorize(n)\<close>. The function calls itself with no bound of its own, so
  the model carries the depth of recursion it may still use: \<open>None\<close> says that this depth
  was not enough (or that an inner loop never ended). \<open>pow_half\<close> is \<^verbatim>\<open>int(n**0.5)\<close>.
  \<^verbatim>\<open>pollard_rho(n)\<close> runs with its default budget of 100000 iterations.
\<close>

fun pollard_rho_factorize :: "nat \<Rightarrow> (int \<Rightarrow> exn + int) \<Rightarrow> int \<Rightarrow> rng \<Rightarrow> ((exn + int list) \<times> rng) option" where
  "pollard_rho_factorize 0 pow_half n rs = None"
| "pollard_rho_factorize (Suc depth) pow_half n rs =
     (if n < 2 then Some (Inr [], rs)
      else if n = 2 then Some (Inr [2], rs)
      else case pow_half n of
        Inl e \<Rightarrow> Some (Inl e, rs)
      | Inr s \<Rightarrow>
          if list_all (\<lambda>i. n mod i \<noteq> 0) (range_py 2 (min (s + 1) SMALL_PRIME_LIMIT) 1)
             \<and> n < PRIME_THRESHOLD
          then Some (Inr [n], rs)
          else (case pollard_rho n 100000 rs of
            (Inl e, rs1) \<Rightarrow> Some (Inl e, rs1)
          | (Inr None, rs1) \<Rightarrow> fall_back n rs1
          | (Inr (Some factor), rs1) \<Rightarrow>
              if factor = n then fall_back n rs1
              else (case pollard_rho_factorize depth pow_half factor rs1 of
                None \<Rightarrow> None
              | Some (Inl e, rs2) \<Rightarrow> Some (Inl e, rs2)
              | Some (Inr fs1, rs2) \<Rightarrow>
                  if factor = 0 then Some (Inl ZeroDivisionError, rs2)
                  else (case pollard_rho_factorize depth pow_half (n div factor) rs2 of
                    None \<Rightarrow> None
                  | Some (Inl e, rs3) \<Rightarrow> Some (Inl e, rs3)
                  | Some (Inr fs2, rs3) \<Rightarrow> Some (Inr (sort (fs1 @ fs2)), rs3)))))"

section \<open>Fermat's method\<close>

text \<open>
  The loop of \<^verbatim>\<open>fermat_factorization\<close>; \<open>int_sqrt\<close> is \<^verbatim>\<open>int(math.sqrt(b_sq))\<close>.
\<close>

function fermat_loop :: "(int \<Rightarrow> exn + int) \<Rightarrow> int \<Rightarrow> int \<Rightarrow> int \<Rightarrow> int \<Rightarrow> int \<Rightarrow> exn + (int \<times> int) option" where
  "fermat_loop int_sqrt n max_iterations a b_sq iteration =
     (if iteration < max_iterations
      then case int_sqrt b_sq of
        Inl e \<Rightarrow> Inl e
      | Inr b \<Rightarrow>
          if b * b = b_sq then Inr (Some (a - b, a + b))
          else fermat_loop int_sqrt n max_iterations (a + 1) ((a + 1) * (a + 1) - n) (iteration + 1)
      else Inr None)"
  by pat_completeness auto
termination
  by (relation "measure (\<lambda>(int_sqrt, n, max_iterations, a, b_sq, iteration). nat (max_iterations - iteration))") auto

declare fermat_loop.simps [simp del]

text \<open>
  \<^verbatim>\<open>fermat_factorization(n, max_iterations)\<close>; \<open>ceil_sqrt\<close> is
  \<^verbatim>\<open>math.ceil(math.sqrt(n))\<close>.
\<close>

definition fermat_factorization ::
  "(int \<Rightarrow> exn + int) \<Rightarrow> (int \<Rightarrow> exn + int) \<Rightarrow> int \<Rightarrow> int \<Rightarrow> exn + (int \<times> int) option" where
  "fermat_factorization ceil_sqrt int_sqrt n max_iterations =
     (if n mod 2 = 0 then Inr (Some (2, n div 2))
      else case ceil_sqrt n of
        Inl e \<Rightarrow> Inl e
      | Inr a \<Rightarrow> fermat_loop int_sqrt n max_iterations a (a * a - n) 0)"

text \<open>\<^verbatim>\<open>fermat_factorization_wrapper(n)\<close> of \<^verbatim>\<open>comparison.py\<close>; a pair is never falsy.\<close>

definition fermat_factorization_wrapper ::
  "(int \<Rightarrow> exn + int) \<Rightarrow> (int \<Rightarrow> exn + int) \<Rightarrow> int \<Rightarrow> exn + int list option" where
  "fermat_factorization_wrapper ceil_sqrt int_sqrt n =
     (case fermat_factorization ceil_sqrt int_sqrt n 100000 of
        Inl e \<Rightarrow> Inl e
      | Inr None \<Rightarrow> Inr None
      | Inr (Some (a, b)) \<Rightarrow> Inr (Some [a, b]))"

section \<open>Simple primality test\<close>

text \<open>
  The loop \<^verbatim>\<open>for i in range(...): if n % i == 0: return False\<close> followed by
  \<^verbatim>\<open>return True\<close>.
\<close>

fun no_divisor_among :: "int \<Rightarrow> int list \<Rightarrow> bool" where
  "no_divisor_among n [] = True"
| "no_divisor_among n (i # is) = (if n mod i = 0 then False else no_divisor_among n is)"

definition is_prime_simple :: "(int \<Rightarrow> exn + int) \<Rightarrow> int \<Rightarrow> exn + bool" where
  "is_prime_simple pow_half n =
     (if n < 2 then Inr False
      else if n = 2 then Inr True
      else if n mod 2 = 0 then Inr False
      else case pow_half n of
        Inl e \<Rightarrow> Inl e
      | Inr s \<Rightarrow> Inr (no_divisor_among n (range_py 3 (min (s + 1) SMALL_PRIME_LIMIT) 2)))"

section \<open>Results, benchmark runner and summary\<close>

text \<open>
  \<^verbatim>\<open>class FactorizationResult\<close>. Times are the differences of two readings of
  \<^verbatim>\<open>time.time()\<close>, taken as real numbers. The constructor stores \<^verbatim>\<open>factors if factors else []\<close>.
\<close>

record FactorizationResult =
  number :: int
  algorithm :: string
  factors :: "int list"
  time_taken :: real
  success :: bool

definition FactorizationResult_init ::
  "int \<Rightarrow> string \<Rightarrow> int list option \<Rightarrow> real \<Rightarrow> bool \<Rightarrow> FactorizationResult" where
  "FactorizationResult_init n name fs t ok =
     \<lparr>number = n, algorithm = name,
      factors = (case fs of None \<Rightarrow> [] | Some l \<Rightarrow> if l \<noteq> [] then l else []),
      time_taken = t, success = ok\<rparr>"

text \<open>\<^verbatim>\<open>verify_factors\<close>: the product is accumulated by the loop \<^verbatim>\<open>product *= f\<close>.\<close>

definition verify_factors :: "FactorizationResult \<Rightarrow> bool" where
  "verify_factors self =
     (if factors self = [] then False
      else fold (\<lambda>f product. product * f) (factors self) 1 = number self)"

text \<open>
  \<^verbatim>\<open>benchmark_algorithm(algorithm_func, number, algorithm_name)\<close>. The wrapped function
  returns a list, \<^verbatim>\<open>None\<close>, or raises; \<open>start_time\<close> is the reading of the clock before
  the call and \<open>end_time\<close> the reading after it, in the \<^verbatim>\<open>try\<close> body or in the handler.
  The handler's \<^verbatim>\<open>print\<close> is not part of the model.
\<close>

definition benchmark_algorithm ::
  "(int \<Rightarrow> exn + int list option) \<Rightarrow> int \<Rightarrow> string \<Rightarrow> real \<Rightarrow> real \<Rightarrow> FactorizationResult" where
  "benchmark_algorithm algorithm_func n algorithm_name start_time end_time =
     (case algorithm_func n of
        Inr fs \<Rightarrow>
          let elapsed_time = end_time - start_time
          in if (case fs of None \<Rightarrow> False | Some l \<Rightarrow> l \<noteq> [] \<and> length l > 0)
             then FactorizationResult_init n algorithm_name fs elapsed_time True
             else FactorizationResult_init n algorithm_name None elapsed_time False
      | Inl e \<Rightarrow>
          let elapsed_time = end_time - start_time
          in FactorizationResult_init n algorithm_name None elapsed_time False)"

text \<open>
  The speedup column of \<^verbatim>\<open>print_comparison_summary\<close>. \<open>number_results\<close> is the dictionary
  of one number, in insertion order. \<open>baseline\<close> is \<^verbatim>\<open>None\<close> or a time; Python's
  \<^verbatim>\<open>if baseline and ...\<close> is false for \<^verbatim>\<open>None\<close> and for \<^verbatim>\<open>0.0\<close>. The speedup is
  \<open>None\<close> where the table shows \<^verbatim>\<open>N/A\<close>.
\<close>

definition baseline_of :: "(string \<times> FactorizationResult) list \<Rightarrow> real option" where
  "baseline_of number_results =
     (case map_of number_results ''trial_division'' of
        None \<Rightarrow> None
      | Some baseline_time \<Rightarrow> if success baseline_time then Some (time_taken baseline_time) else None)"

definition speedup_of :: "real option \<Rightarrow> FactorizationResult \<Rightarrow> real option" where
  "speedup_of baseline result =
     (case baseline of
        None \<Rightarrow> None
      | Some b \<Rightarrow>
          if b \<noteq> 0 \<and> success result \<and> time_taken result > 0
          then Some (b / time_taken result) else None)"

definition summary_speedups :: "(string \<times> FactorizationResult) list \<Rightarrow> (string \<times> real option) list" where
  "summary_speedups number_results =
     map (\<lambda>(algo_name, result). (algo_name, speedup_of (baseline_of number_results) result))
       number_results"


section \<open>An exact float library\<close>

text \<open>
  The three square-root computations as they come out when the float library is exact:
  \<^verbatim>\<open>int(n**0.5)\<close>, \<^verbatim>\<open>int(math.sqrt(n))\<close> and \<^verbatim>\<open>math.ceil(math.sqrt(n))\<close>, the last two
  raising \<^verbatim>\<open>ValueError\<close> on a negative argument. Concrete runs are evaluated with them.
\<close>

definition ideal_pow_half :: "int \<Rightarrow> exn + int" where
  "ideal_pow_half n = Inr (exact_isqrt n)"

definition ideal_int_sqrt :: "int \<Rightarrow> exn + int" where
  "ideal_int_sqrt n = (if n < 0 then Inl ValueError else Inr (exact_isqrt n))"

definition ideal_ceil_sqrt :: "int \<Rightarrow> exn + int" where
  "ideal_ceil_sqrt n =
     (if n < 0 then Inl ValueError
      else let s = exact_isqrt n in Inr (if s * s = n then s else s + 1))"

section \<open>Modular powers\<close>

text \<open>
  Powers modulo \<open>n\<close> by repeated squaring. Not part of the program: the verification uses it
  to compute powers with large exponents.
\<close>

fun modpow :: "int \<Rightarrow> nat \<Rightarrow> int \<Rightarrow> int" where
  "modpow a e n =
     (if e = 0 then 1 mod n
      else if even e then (let h = modpow a (e div 2) n in (h * h) mod n)
      else (a * modpow a (e - 1) n) mod n)"

declare modpow.simps [simp del]

section \<open>Verification: the greatest common divisor\<close>

lemma gcd_py_zero [simp]: "gcd_py a 0 = a"
  by (simp add: gcd_py.simps [of a 0])

lemma gcd_py_step: "b \<noteq> 0 \<Longrightarrow> gcd_py a b = gcd_py b (a mod b)"
  by (simp add: gcd_py.simps [of a b])

lemma gcd_py_abs: "\<bar>gcd_py a b\<bar> = gcd a b"
proof (induction a b rule: gcd_py.induct)
  case (1 a b)
  show ?case
  proof (cases "b = 0")
    case True
    then show ?thesis by simp
  next
    case False
    with 1 have "\<bar>gcd_py a b\<bar> = gcd b (a mod b)"
      by (simp add: gcd_py_step)
    also have "\<dots> = gcd a b"
      by (metis gcd.commute gcd_red_int)
    finally show ?thesis .
  qed
qed

lemma gcd_py_nonneg: "0 \<le> a \<Longrightarrow> 0 \<le> b \<Longrightarrow> 0 \<le> gcd_py a b"
proof (induction a b rule: gcd_py.induct)
  case (1 a b)
  show ?case
  proof (cases "b = 0")
    case True
    with 1 show ?thesis by simp
  next
    case False
    with 1 have "0 < b" by simp
    then have "0 \<le> a mod b" by simp
    with 1 False show ?thesis by (simp add: gcd_py_step)
  qed
qed

lemma gcd_py_eq_gcd: "0 \<le> a \<Longrightarrow> 0 \<le> b \<Longrightarrow> gcd_py a b = gcd a b"
  using gcd_py_abs [of a b] gcd_py_nonneg [of a b] by simp


section \<open>Verification: trial division\<close>

lemma divide_out_spec:
  assumes "2 \<le> i" "1 \<le> n"
  shows "\<exists>k n'. divide_out i n fs = Some (n', fs @ replicate k i) \<and> n = n' * i ^ k
            \<and> 1 \<le> n' \<and> \<not> i dvd n'"
  using assms(2)
proof (induction "nat n" arbitrary: n fs rule: less_induct)
  case less
  show ?case
  proof (cases "n mod i = 0")
    case False
    then have "divide_out i n fs = Some (n, fs @ replicate 0 i)"
      by (simp add: divide_out.simps [of i n fs])
    moreover have "\<not> i dvd n" using False by (simp add: dvd_eq_mod_eq_0)
    ultimately show ?thesis using less.prems
      by (intro exI [of _ 0] exI [of _ n]) simp
  next
    case True
    then have dv: "i dvd n" by (simp add: dvd_eq_mod_eq_0)
    have pos: "1 \<le> n div i"
    proof -
      have "i \<le> n" using dv less.prems by (intro zdvd_imp_le) auto
      then have "0 < n div i" using assms(1) by (simp add: pos_imp_zdiv_pos_iff)
      then show ?thesis by simp
    qed
    have lt: "n div i < n"
      using assms(1) less.prems by (simp add: int_div_less_self)
    then have "nat (n div i) < nat n" using pos by simp
    from less.hyps [OF this pos, of "fs @ [i]"]
    obtain k n' where k: "divide_out i (n div i) (fs @ [i]) = Some (n', (fs @ [i]) @ replicate k i)"
      "n div i = n' * i ^ k" "1 \<le> n'" "\<not> i dvd n'" by blast
    have "divide_out i n fs = Some (n', fs @ replicate (Suc k) i)"
      using True k(1) by (simp add: divide_out.simps [of i n fs] replicate_app_Cons_same)
    moreover have "n = n' * i ^ Suc k"
    proof -
      have "n = i * (n div i)" using dv by simp
      then show ?thesis using k(2) by (simp add: mult_ac)
    qed
    ultimately show ?thesis using k(3,4) by blast
  qed
qed

lemma no_small_divisor_prime:
  assumes "2 \<le> n" "n < i * i" "0 \<le> i" "\<forall>d. 2 \<le> d \<and> d < i \<longrightarrow> \<not> d dvd n"
  shows "prime_int n"
  unfolding prime_int_def
proof (intro conjI ballI notI)
  show "2 \<le> n" by fact
next
  fix d assume d: "d \<in> {2..<n}" and dv: "d dvd n"
  then obtain e where e: "n = d * e" by (auto simp: dvd_def)
  have dpos: "2 \<le> d" "d < n" using d by auto
  have "0 < d * e" using e assms(1) by simp
  then have "0 < e" using dpos by (simp add: zero_less_mult_iff)
  have "e \<noteq> 1" using e dpos by auto
  then have e2: "2 \<le> e" using \<open>0 < e\<close> by simp
  have "e dvd n" using e by simp
  have "\<not> d < i" using assms(4) dpos dv by blast
  then have "i \<le> d" by simp
  have "\<not> e < i" using assms(4) e2 \<open>e dvd n\<close> by blast
  then have "i \<le> e" by simp
  have "i * i \<le> d * e" using \<open>i \<le> d\<close> \<open>i \<le> e\<close> assms(3) by (intro mult_mono) auto
  then show False using e assms(2) by simp
qed

lemma odd_factors_spec:
  assumes "3 \<le> i" "odd i" "1 \<le> n" "odd n" "\<forall>d. 2 \<le> d \<and> d < i \<longrightarrow> \<not> d dvd n"
  shows "\<exists>n' gs. odd_factors i n fs = Some (n', fs @ gs) \<and> n = n' * prod_list gs \<and> sorted gs
            \<and> (\<forall>p\<in>set gs. prime_int p \<and> i \<le> p)
            \<and> (n' = 1 \<or> (prime_int n' \<and> i \<le> n' \<and> (\<forall>p\<in>set gs. p \<le> n')))"
  using assms
proof (induction "nat (n - i)" arbitrary: i n fs rule: less_induct)
  case less
  note nodiv = less.prems(5)
  show ?case
  proof (cases "i * i \<le> n")
    case False
    then have run: "odd_factors i n fs = Some (n, fs @ [])"
      by (simp add: odd_factors.simps [of i n fs])
    have "n = 1 \<or> (prime_int n \<and> i \<le> n)"
    proof (cases "n = 1")
      case False
      then have n2: "2 \<le> n" using less.prems(3) by simp
      have "\<not> n < i" using nodiv n2 by auto
      moreover have "prime_int n"
        using no_small_divisor_prime [of n i] n2 False \<open>\<not> i * i \<le> n\<close> less.prems(1) nodiv by auto
      ultimately show ?thesis by simp
    qed simp
    with run show ?thesis
      by (intro exI [of _ n] exI [of _ "[]"]) auto
  next
    case True
    have i2: "2 \<le> i" using less.prems(1) by simp
    from divide_out_spec [OF i2 less.prems(3), of fs]
    obtain k n1 where k: "divide_out i n fs = Some (n1, fs @ replicate k i)" "n = n1 * i ^ k"
      "1 \<le> n1" "\<not> i dvd n1" by blast
    have n1dvd: "n1 dvd n" using k(2) by simp
    have "odd n1" using n1dvd less.prems(4) by (meson dvd_trans)
    have nodiv1: "\<forall>d. 2 \<le> d \<and> d < i + 2 \<longrightarrow> \<not> d dvd n1"
    proof (intro allI impI)
      fix d assume d: "2 \<le> d \<and> d < i + 2"
      consider "d < i" | "d = i" | "d = i + 1" using d by linarith
      then show "\<not> d dvd n1"
      proof cases
        case 1
        then show ?thesis using nodiv d n1dvd by (meson dvd_trans)
      next
        case 2
        then show ?thesis using k(4) by simp
      next
        case 3
        then have "even d" using less.prems(2) by simp
        then show ?thesis using \<open>odd n1\<close> by (meson dvd_trans)
      qed
    qed
    have "i < i * i" using less.prems(1) by (simp add: mult_less_cancel_left2)
    then have "i < n" using True by simp
    have "0 < i ^ k" using i2 by simp
    then have "n1 * 1 \<le> n1 * i ^ k" using k(3) by (intro mult_left_mono) auto
    then have "n1 \<le> n" using k(2) by simp
    then have "nat (n1 - (i + 2)) < nat (n - i)" using \<open>i < n\<close> by simp
    from less.hyps [OF this _ _ k(3) \<open>odd n1\<close> nodiv1, of "fs @ replicate k i"] less.prems(1,2)
    obtain n' gs where r: "odd_factors (i + 2) n1 (fs @ replicate k i) = Some (n', (fs @ replicate k i) @ gs)"
      "n1 = n' * prod_list gs" "sorted gs" "\<forall>p\<in>set gs. prime_int p \<and> i + 2 \<le> p"
      "n' = 1 \<or> (prime_int n' \<and> i + 2 \<le> n' \<and> (\<forall>p\<in>set gs. p \<le> n'))" by auto
    have run: "odd_factors i n fs = Some (n', fs @ (replicate k i @ gs))"
      using True k(1) r(1) by (simp add: odd_factors.simps [of i n fs])
    have prod: "n = n' * prod_list (replicate k i @ gs)"
      using k(2) r(2) by (simp add: prod_list_replicate mult_ac)
    have srt: "sorted (replicate k i @ gs)"
      using r(3,4) by (auto simp: sorted_append sorted_replicate)
    have pi: "0 < k \<Longrightarrow> prime_int i"
    proof -
      assume "0 < k"
      then have "i dvd n" using k(2) by (cases k) auto
      show "prime_int i" unfolding prime_int_def
      proof (intro conjI ballI notI)
        fix d assume "d \<in> {2..<i}" "d dvd i"
        then show False using nodiv \<open>i dvd n\<close> by (meson atLeastLessThan_iff dvd_trans)
      qed (rule i2)
    qed
    have elems: "\<forall>p\<in>set (replicate k i @ gs). prime_int p \<and> i \<le> p"
      using r(4) pi by (auto simp: set_replicate_conv_if)
    have fin: "n' = 1 \<or> (prime_int n' \<and> i \<le> n' \<and> (\<forall>p\<in>set (replicate k i @ gs). p \<le> n'))"
      using r(5) by (auto simp: set_replicate_conv_if)
    show ?thesis using run prod srt elems fin by blast
  qed
qed

lemma prime_int_2: "prime_int 2"
  by (simp add: prime_int_def)

lemma trial_division_spec:
  assumes "2 \<le> n"
  shows "\<exists>fs. trial_division n = Some fs \<and> prod_list fs = n \<and> (\<forall>p\<in>set fs. prime_int p) \<and> sorted fs"
proof -
  have n1: "1 \<le> n" using assms by simp
  from divide_out_spec [of 2 n "[]", OF _ n1]
  obtain k n1 where k: "divide_out 2 n [] = Some (n1, replicate k 2)" "n = n1 * 2 ^ k"
    "1 \<le> n1" "odd n1" by auto
  have nodiv: "\<forall>d. 2 \<le> d \<and> d < 3 \<longrightarrow> \<not> d dvd n1"
  proof (intro allI impI)
    fix d :: int assume "2 \<le> d \<and> d < 3"
    then have "d = 2" by simp
    then show "\<not> d dvd n1" using k(4) by simp
  qed
  from odd_factors_spec [of 3 n1 "replicate k 2", OF _ _ k(3,4) nodiv]
  obtain n' gs where r: "odd_factors 3 n1 (replicate k 2) = Some (n', replicate k 2 @ gs)"
    "n1 = n' * prod_list gs" "sorted gs" "\<forall>p\<in>set gs. prime_int p \<and> 3 \<le> p"
    "n' = 1 \<or> (prime_int n' \<and> 3 \<le> n' \<and> (\<forall>p\<in>set gs. p \<le> n'))" by auto
  let ?fs = "if n' > 2 then (replicate k 2 @ gs) @ [n'] else replicate k 2 @ gs"
  have run: "trial_division n = Some ?fs"
    using assms k(1) r(1) by (simp add: trial_division_def)
  have prod: "prod_list ?fs = n"
    using k(2) r(2,5) by (auto simp: prod_list_replicate mult_ac)
  have pr: "\<forall>p\<in>set ?fs. prime_int p"
    using r(4,5) prime_int_2 by (auto simp: set_replicate_conv_if)
  have srt: "sorted ?fs"
    using r(3,4,5) by (auto simp: sorted_append sorted_replicate set_replicate_conv_if)
  show ?thesis using run prod pr srt by blast
qed

text \<open>
  Claim C1. For every integer \<open>n \<ge> 2\<close>, \<^verbatim>\<open>trial_division(n)\<close> returns a list whose product is
  \<open>n\<close>, whose elements are all prime, in ascending order; for \<open>n < 2\<close> it returns the empty
  list. In particular both loops end.
\<close>

theorem trial_division_correct:
  "(n < 2 \<longrightarrow> trial_division n = Some []) \<and>
   (2 \<le> n \<longrightarrow> (\<exists>fs. trial_division n = Some fs \<and> prod_list fs = n
        \<and> (\<forall>p\<in>set fs. prime_int p) \<and> sorted fs))"
  using trial_division_spec [of n] by (simp add: trial_division_def)

theorem trial_division_correct_witness:
  "trial_division 1 = Some [] \<and> trial_division 100 = Some [2, 2, 5, 5] \<and> prod_list [2, 2, 5, 5] = (100::int)
     \<and> prime_int 2 \<and> prime_int 5 \<and> sorted [2, 2, 5, 5::int]"
proof -
  have run: "trial_division 100 = Some [2, 2, 5, 5]"
    by code_simp
  from trial_division_correct [of 1] have a: "trial_division 1 = Some []" by simp
  from trial_division_correct [of 100] run
  have "prod_list [2, 2, 5, 5] = (100::int) \<and> prime_int 2 \<and> prime_int 5 \<and> sorted [2, 2, 5, 5::int]"
    by simp
  with a run show ?thesis by simp
qed

text \<open>
  Claim C8, as amended. \<^verbatim>\<open>gcd\<close> returns the greatest common divisor up to its sign; for
  non-negative arguments it is the non-negative greatest common divisor and it commutes;
  \<^verbatim>\<open>gcd(a, 0) == a\<close> for every integer \<open>a\<close>, and \<^verbatim>\<open>gcd(0, 0) == 0\<close>.
\<close>

theorem gcd_py_properties:
  "\<bar>gcd_py a b\<bar> = gcd a b \<and> gcd_py a 0 = a \<and> gcd_py 0 0 = 0 \<and>
   (0 \<le> a \<and> 0 \<le> b \<longrightarrow> gcd_py a b = gcd a b \<and> 0 \<le> gcd_py a b \<and> gcd_py a b = gcd_py b a)"
  using gcd_py_abs [of a b] gcd_py_eq_gcd [of a b] gcd_py_eq_gcd [of b a]
  by (auto simp: gcd.commute)

theorem gcd_py_properties_witness:
  "gcd_py 48 18 = 6 \<and> gcd_py 18 48 = 6 \<and> gcd_py 48 0 = 48 \<and> gcd (48::int) 18 = 6"
proof -
  have "gcd_py 48 18 = 6" by (simp add: gcd_py_step)
  with gcd_py_properties [of 48 18] show ?thesis by simp
qed

text \<open>
  Claim C8 as stated fails on negative integers: \<^verbatim>\<open>gcd(-3, 0)\<close> is \<open>-3\<close>, which is negative,
  and \<^verbatim>\<open>gcd(3, -3)\<close> is \<open>-3\<close> while \<^verbatim>\<open>gcd(-3, 3)\<close> is \<open>3\<close>.
\<close>

theorem gcd_py_counterexample:
  "gcd_py (- 3) 0 < 0 \<and> gcd_py 3 (- 3) \<noteq> gcd_py (- 3) 3"
  by (simp add: gcd_py_step)

section \<open>Verification: benchmark runner and results\<close>




lemma fold_product: "fold (\<lambda>f product. product * f) fs (a::int) = a * prod_list fs"
  by (induction fs arbitrary: a) (auto simp: mult_ac)

text \<open>
  Claim C6 as stated fails: \<^verbatim>\<open>benchmark_algorithm\<close> sets \<^verbatim>\<open>success\<close> as soon as the wrapped
  function returns a non-empty list and never multiplies the factors. A wrapped function
  that answers \<^verbatim>\<open>[2]\<close> for 15 gives a result with \<^verbatim>\<open>success = True\<close> whose product is not 15.
\<close>

theorem result_invariant_counterexample:
  "success (benchmark_algorithm (\<lambda>n. Inr (Some [2])) 15 ''wrong'' 0 1)
   \<and> prod_list (factors (benchmark_algorithm (\<lambda>n. Inr (Some [2])) 15 ''wrong'' 0 1))
       \<noteq> number (benchmark_algorithm (\<lambda>n. Inr (Some [2])) 15 ''wrong'' 0 1)"
  by (simp add: benchmark_algorithm_def FactorizationResult_init_def)

text \<open>
  Claim C6, as amended. In every result of \<^verbatim>\<open>benchmark_algorithm\<close>, \<^verbatim>\<open>success\<close> implies
  that the factor list is not empty and is the list that the wrapped function returned,
  so its product is the number whenever the wrapped function's factors multiply to the
  number; the number field is the input. \<^verbatim>\<open>verify_factors()\<close> of any result is true if and
  only if the factor list is not empty and its product is the number field.
\<close>

theorem result_invariant:
  "(success (benchmark_algorithm algorithm_func n name start_time end_time) \<longrightarrow>
      factors (benchmark_algorithm algorithm_func n name start_time end_time) \<noteq> []
      \<and> algorithm_func n = Inr (Some (factors (benchmark_algorithm algorithm_func n name start_time end_time))))
   \<and> number (benchmark_algorithm algorithm_func n name start_time end_time) = n
   \<and> (verify_factors r \<longleftrightarrow> factors r \<noteq> [] \<and> prod_list (factors r) = number r)"
  by (auto simp: benchmark_algorithm_def FactorizationResult_init_def verify_factors_def fold_product
      Let_def split: sum.splits option.splits if_splits)

theorem result_invariant_witness:
  "success (benchmark_algorithm (\<lambda>n. Inr (Some [3, 5])) 15 ''td'' 0 1)
   \<and> factors (benchmark_algorithm (\<lambda>n. Inr (Some [3, 5])) 15 ''td'' 0 1) = [3, 5]
   \<and> verify_factors (benchmark_algorithm (\<lambda>n. Inr (Some [3, 5])) 15 ''td'' 0 1)"
proof -
  let ?r = "benchmark_algorithm (\<lambda>n. Inr (Some [3, 5])) 15 ''td'' 0 1"
  have s: "success ?r" by (simp add: benchmark_algorithm_def FactorizationResult_init_def)
  from result_invariant [of "\<lambda>n. Inr (Some [3, 5])" 15 "''td''" 0 1 ?r] s
  have "factors ?r = [3, 5]" "number ?r = 15"
    "verify_factors ?r = (factors ?r \<noteq> [] \<and> prod_list (factors ?r) = number ?r)"
    by auto
  with s show ?thesis by simp
qed

text \<open>
  Claim C9 as stated fails when Trial Division succeeded in a time measured as zero: the
  baseline succeeded and the other algorithm succeeded with a positive time, yet no speedup
  is computed.
\<close>

theorem speedup_counterexample:
  "success \<lparr>number = 15, algorithm = ''Trial Division'', factors = [3, 5], time_taken = 0, success = True\<rparr>
   \<and> success \<lparr>number = 15, algorithm = ''Pollard's Rho'', factors = [3, 5], time_taken = 1, success = True\<rparr>
   \<and> 0 < time_taken \<lparr>number = 15, algorithm = ''Pollard's Rho'', factors = [3, 5], time_taken = 1, success = True\<rparr>
   \<and> summary_speedups
        [(''trial_division'', \<lparr>number = 15, algorithm = ''Trial Division'', factors = [3, 5], time_taken = 0, success = True\<rparr>),
         (''pollard_rho'', \<lparr>number = 15, algorithm = ''Pollard's Rho'', factors = [3, 5], time_taken = 1, success = True\<rparr>)]
       = [(''trial_division'', None), (''pollard_rho'', None)]"
  by (simp add: summary_speedups_def baseline_of_def speedup_of_def)

text \<open>
  Claim C9, as amended. For each row of the summary of a number, the speedup is the
  baseline time divided by the row's time exactly when the Trial Division result exists,
  succeeded and has a time other than zero, and the row's algorithm succeeded with a
  positive time; in every other case it is not applicable.
\<close>

theorem speedup_exactly_when:
  "summary_speedups number_results =
     map (\<lambda>(algo_name, result).
            (algo_name,
             case map_of number_results ''trial_division'' of
               None \<Rightarrow> None
             | Some base \<Rightarrow>
                 if success base \<and> time_taken base \<noteq> 0 \<and> success result \<and> 0 < time_taken result
                 then Some (time_taken base / time_taken result) else None))
       number_results"
  by (auto simp: summary_speedups_def baseline_of_def speedup_of_def split: option.splits)

section \<open>Verification: Pollard's rho and Fermat's method\<close>

lemma pollard_loop_divides:
  assumes "0 < n" "1 \<le> d" "d dvd n"
  shows "1 \<le> pollard_loop n c max_iterations x y d iteration
         \<and> pollard_loop n c max_iterations x y d iteration dvd n"
  using assms
proof (induction n c max_iterations x y d iteration rule: pollard_loop.induct)
  case (1 n c max_iterations x y d iteration)
  show ?case
  proof (cases "d = 1 \<and> iteration < max_iterations")
    case False
    then show ?thesis using "1.prems" by (subst (1 2) pollard_loop.simps) auto
  next
    case True
    define x' where "x' = (x * x + c) mod n"
    define y' where "y' = (y * y + c) mod n"
    define y'' where "y'' = (y' * y' + c) mod n"
    define d' where "d' = gcd_py \<bar>x' - y''\<bar> n"
    have eq: "d' = gcd \<bar>x' - y''\<bar> n"
      unfolding d'_def using "1.prems"(1) by (intro gcd_py_eq_gcd) auto
    have "d' dvd n" unfolding eq by simp
    moreover have "1 \<le> d'" 
    proof -
      have "gcd \<bar>x' - y''\<bar> n \<noteq> 0" using "1.prems"(1) by simp
      moreover have "0 \<le> gcd \<bar>x' - y''\<bar> n" by simp
      ultimately show ?thesis unfolding eq by linarith
    qed
    ultimately have "1 \<le> pollard_loop n c max_iterations x' y'' d' (iteration + 1)
         \<and> pollard_loop n c max_iterations x' y'' d' (iteration + 1) dvd n"
      using "1.IH" [OF True x'_def y'_def y''_def d'_def "1.prems"(1)] by simp
    moreover have "pollard_loop n c max_iterations x y d iteration
        = pollard_loop n c max_iterations x' y'' d' (iteration + 1)"
      using True by (subst pollard_loop.simps) (simp add: Let_def x'_def y'_def y''_def d'_def)
    ultimately show ?thesis by simp
  qed
qed

lemma pollard_rho_result:
  assumes "pollard_rho n max_iterations rs = (Inr (Some d), rs')" "3 \<le> n"
  shows "1 \<le> d \<and> d < n \<and> d dvd n"
proof (cases "n mod 2 = 0")
  case True
  then have "d = 2" using assms(1) by (simp add: pollard_rho_def)
  moreover have "2 dvd n" using True by presburger
  moreover have "n \<noteq> 3" using True by auto
  ultimately show ?thesis using assms(2) by simp
next
  case False
  have n0: "0 < n" using assms(2) by simp
  from False assms obtain x c where
    d: "d = pollard_loop n c max_iterations x x 1 0" and dn: "d \<noteq> n"
    by (auto simp: pollard_rho_def randint_def Let_def split: if_splits)
  from pollard_loop_divides [OF n0, of 1 c max_iterations x x 0]
  have "1 \<le> d" "d dvd n" unfolding d by simp_all
  moreover have "d \<le> n" using \<open>d dvd n\<close> n0 by (simp add: zdvd_imp_le)
  ultimately show ?thesis using dn by simp
qed

lemma prime_int_ge_2: "prime_int p \<Longrightarrow> 2 \<le> p"
  by (simp add: prime_int_def)

lemma fall_back_result:
  assumes "fall_back n rs = Some (Inr fs, rs')" "2 \<le> n"
  shows "prod_list fs = n \<and> (\<forall>f\<in>set fs. 2 \<le> f)"
proof (cases "n < 10000")
  case True
  with assms(1) have "trial_division n = Some fs" by (auto simp: fall_back_def)
  with trial_division_spec [OF assms(2)] show ?thesis by (auto dest: prime_int_ge_2)
next
  case False
  with assms show ?thesis by (auto simp: fall_back_def)
qed

lemma prod_list_sort: "prod_list (sort xs) = prod_list (xs :: int list)"
proof -
  have "prod_mset (mset (sort xs)) = prod_mset (mset xs)" by simp
  then show ?thesis by (simp only: prod_mset_prod_list)
qed

lemma pollard_rho_factorize_result:
  "pollard_rho_factorize depth pow_half n rs = Some (Inr fs, rs') \<Longrightarrow> 1 \<le> n \<Longrightarrow>
     prod_list fs = n \<and> (\<forall>f\<in>set fs. 2 \<le> f)"
proof (induction depth arbitrary: n rs fs rs')
  case 0
  then show ?case by simp
next
  case (Suc depth)
  note run = Suc.prems(1)
  consider "n = 1" | "n = 2" | "3 \<le> n" using Suc.prems(2) by linarith
  then show ?case
  proof cases
    case 1
    with run show ?thesis by simp
  next
    case 2
    with run show ?thesis by auto
  next
    case 3
    then have n2: "\<not> n < 2" "n \<noteq> 2" "2 \<le> n" by simp_all
    from run n2 obtain s where s: "pow_half n = Inr s"
      by (auto split: sum.splits)
    show ?thesis
    proof (cases "list_all (\<lambda>i. n mod i \<noteq> 0) (range_py 2 (min (s + 1) SMALL_PRIME_LIMIT) 1) \<and> n < PRIME_THRESHOLD")
      case True
      with run n2 s have "fs = [n]" by simp
      then show ?thesis using n2 by simp
    next
      case False
      obtain res rs1 where pr: "pollard_rho n 100000 rs = (res, rs1)" by (cases "pollard_rho n 100000 rs")
      show ?thesis
      proof (cases res)
        case (Inl e)
        with run n2 s False pr show ?thesis by simp
      next
        case (Inr factor)
        show ?thesis
        proof (cases "factor = None \<or> factor = Some n")
          case True
          with run n2 s False pr Inr have "fall_back n rs1 = Some (Inr fs, rs')" by auto
          from fall_back_result [OF this n2(3)] show ?thesis .
        next
          case F: False
          then obtain d where d: "factor = Some d" "d \<noteq> n" by auto
          from pollard_rho_result [OF pr [unfolded Inr d(1)] 3]
          have dprops: "1 \<le> d" "d < n" "d dvd n" by simp_all
          from run n2 s False pr Inr d dprops
          obtain fs1 rs2 fs2 where
            r1: "pollard_rho_factorize depth pow_half d rs1 = Some (Inr fs1, rs2)" and
            r2: "pollard_rho_factorize depth pow_half (n div d) rs2 = Some (Inr fs2, rs')" and
            fs: "fs = sort (fs1 @ fs2)"
            by (auto split: option.splits sum.splits if_splits)
          have "1 \<le> n div d"
            using dprops 3 by (simp add: pos_imp_zdiv_pos_iff int_one_le_iff_zero_less)
          from Suc.IH [OF r1 dprops(1)] Suc.IH [OF r2 this]
          have "prod_list fs1 = d" "prod_list fs2 = n div d" "\<forall>f\<in>set fs1. 2 \<le> f" "\<forall>f\<in>set fs2. 2 \<le> f"
            by simp_all
          then show ?thesis unfolding fs using dprops(3) by (auto simp: prod_list_sort)
        qed
      qed
    qed
  qed
qed

lemma fermat_loop_product:
  "fermat_loop int_sqrt n max_iterations a b_sq iteration = Inr (Some (p, q)) \<Longrightarrow> b_sq = a * a - n \<Longrightarrow> p * q = n"
proof (induction int_sqrt n max_iterations a b_sq iteration rule: fermat_loop.induct)
  case (1 int_sqrt n max_iterations a b_sq iteration)
  from "1.prems"(1) have it: "iteration < max_iterations"
    by (subst (asm) fermat_loop.simps) (auto split: if_splits)
  with "1.prems"(1) obtain b where b: "int_sqrt b_sq = Inr b"
    by (subst (asm) fermat_loop.simps) (auto split: sum.splits)
  show ?case
  proof (cases "b * b = b_sq")
    case True
    with "1.prems"(1) it b have "p = a - b" "q = a + b"
      by (subst (asm) fermat_loop.simps, simp)+
    moreover have "(a - b) * (a + b) = a * a - b * b" by (simp add: algebra_simps)
    ultimately show ?thesis using True "1.prems"(2) by simp
  next
    case False
    with "1.prems"(1) it b
    have "fermat_loop int_sqrt n max_iterations (a + 1) ((a + 1) * (a + 1) - n) (iteration + 1) = Inr (Some (p, q))"
      by (subst (asm) fermat_loop.simps) simp
    from "1.IH" [OF it b False this] show ?thesis by simp
  qed
qed

lemma fermat_factorization_product:
  assumes "fermat_factorization ceil_sqrt int_sqrt n max_iterations = Inr (Some (p, q))"
  shows "p * q = n"
proof (cases "n mod 2 = 0")
  case True
  with assms have "p = 2" "q = n div 2" by (simp_all add: fermat_factorization_def)
  then show ?thesis using True by presburger
next
  case False
  with assms obtain a where "fermat_loop int_sqrt n max_iterations a (a * a - n) 0 = Inr (Some (p, q))"
    by (auto simp: fermat_factorization_def split: sum.splits)
  from fermat_loop_product [OF this] show ?thesis by simp
qed

lemma pollard_rho_even: "n mod 2 = 0 \<Longrightarrow> pollard_rho n max_iterations rs = (Inr (Some 2), rs)"
  by (simp add: pollard_rho_def)

text \<open>
  Claim C4 fails on the code: when the iteration budget runs out with \<open>d\<close> still 1,
  \<^verbatim>\<open>pollard_rho\<close> returns 1, although its docstring promises a non-trivial factor or
  \<^verbatim>\<open>None\<close>. Here \<^verbatim>\<open>pollard_rho(15, 1)\<close> draws \<open>x = 2\<close> and \<open>c = 2\<close>; after the one
  permitted iteration \<open>x = 6\<close>, \<open>y = 8\<close> and \<open>d = gcd(2, 15) = 1\<close>.
\<close>

theorem pollard_rho_returns_one:
  "fst (pollard_rho 15 1 (\<lambda>i. if i = 0 then 0 else 1)) = Inr (Some 1)"
  by code_simp

text \<open>
  Claim C5 fails on the code: \<^verbatim>\<open>fermat_factorization\<close> has no guard for \<open>n < 2\<close>. It
  answers \<^verbatim>\<open>(2, 0)\<close> for 0 whatever the float library does, \<^verbatim>\<open>(1, 1)\<close> for 1, and
  raises \<^verbatim>\<open>ValueError\<close> for \<open>-1\<close> (the square root of a negative number).
\<close>

theorem fermat_factorization_small:
  "fermat_factorization ceil_sqrt int_sqrt 0 max_iterations = Inr (Some (2, 0))
   \<and> fermat_factorization ideal_ceil_sqrt ideal_int_sqrt 1 100000 = Inr (Some (1, 1))
   \<and> fermat_factorization ideal_ceil_sqrt ideal_int_sqrt (- 1) max_iterations = Inl ValueError"
  by code_simp

text \<open>The other two algorithms do return the empty list for \<open>n < 2\<close>.\<close>

lemma small_inputs_empty:
  "n < 2 \<Longrightarrow> trial_division n = Some []
     \<and> pollard_rho_factorize (Suc depth) pow_half n rs = Some (Inr [], rs)"
  by (simp add: trial_division_def)

text \<open>
  Claim C2 as stated fails for Fermat's method, which returns a pair containing 1 for
  \<open>n = 2\<close> (the even shortcut gives \<^verbatim>\<open>(2, 1)\<close>) and for a prime such as 7 (the search ends
  at \<open>a = 4\<close>, \<open>b = 3\<close> with \<^verbatim>\<open>(1, 7)\<close>).
\<close>

theorem fermat_trivial_factor:
  "fermat_factorization ideal_ceil_sqrt ideal_int_sqrt 2 100000 = Inr (Some (2, 1))
   \<and> fermat_factorization ideal_ceil_sqrt ideal_int_sqrt 7 100000 = Inr (Some (1, 7))"
  by code_simp

section \<open>Verification: the simple primality test\<close>

lemma exact_isqrt_correct:
  "0 \<le> n \<Longrightarrow> 0 \<le> exact_isqrt n \<and> exact_isqrt n * exact_isqrt n \<le> n
      \<and> n < (exact_isqrt n + 1) * (exact_isqrt n + 1)"
proof (induction n rule: exact_isqrt.induct)
  case (1 n)
  show ?case
  proof (cases "n < 1")
    case True
    with "1.prems" have "n = 0" by simp
    then show ?thesis by (simp add: exact_isqrt.simps [of 0])
  next
    case False
    define q where "q = exact_isqrt (n div 4)"
    have "0 \<le> n div 4" using "1.prems" by simp
    from "1.IH" [OF False this]
    have q: "0 \<le> q" "q * q \<le> n div 4" "n div 4 < (q + 1) * (q + 1)" by (simp_all add: q_def)
    have lo: "4 * (n div 4) \<le> n" and hi: "n \<le> 4 * (n div 4) + 3" by presburger+
    have a: "(2 * q) * (2 * q) \<le> n" using q(2) lo by (simp add: algebra_simps)
    have "n div 4 + 1 \<le> (q + 1) * (q + 1)" using q(3) by simp
    then have b: "n < (2 * q + 2) * (2 * q + 2)" using hi by (simp add: algebra_simps)
    have eq: "exact_isqrt n = (if (2 * q + 1) * (2 * q + 1) \<le> n then 2 * q + 1 else 2 * q)"
      using False by (subst exact_isqrt.simps) (simp add: Let_def q_def)
    show ?thesis
    proof (cases "(2 * q + 1) * (2 * q + 1) \<le> n")
      case True
      then show ?thesis using eq q(1) b by (simp add: algebra_simps)
    next
      case F: False
      then show ?thesis using eq q(1) a by (simp add: algebra_simps)
    qed
  qed
qed

lemma set_range_py:
  "set (range_py start stop 2) = {i. start \<le> i \<and> i < stop \<and> (i - start) mod 2 = 0}"
proof (induction start stop "2::int" rule: range_py.induct)
  case (1 start stop)
  show ?case
  proof (cases "start < stop")
    case False
    then show ?thesis by (subst range_py.simps) auto
  next
    case True
    have "set (range_py start stop 2) = insert start (set (range_py (start + 2) stop 2))"
      using True by (subst range_py.simps) simp
    also have "\<dots> = insert start {i. start + 2 \<le> i \<and> i < stop \<and> (i - (start + 2)) mod 2 = 0}"
      using "1.hyps" True by simp
    also have "\<dots> = {i. start \<le> i \<and> i < stop \<and> (i - start) mod 2 = 0}"
    proof (intro set_eqI iffI)
      fix i assume "i \<in> insert start {i. start + 2 \<le> i \<and> i < stop \<and> (i - (start + 2)) mod 2 = 0}"
      then show "i \<in> {i. start \<le> i \<and> i < stop \<and> (i - start) mod 2 = 0}"
        using True by (auto; presburger)
    next
      fix i assume "i \<in> {i. start \<le> i \<and> i < stop \<and> (i - start) mod 2 = 0}"
      then have i: "start \<le> i" "i < stop" "(i - start) mod 2 = 0" by auto
      then have "i = start \<or> (start + 2 \<le> i \<and> (i - (start + 2)) mod 2 = 0)" by presburger
      then show "i \<in> insert start {i. start + 2 \<le> i \<and> i < stop \<and> (i - (start + 2)) mod 2 = 0}"
        using i by auto
    qed
    finally show ?thesis .
  qed
qed

lemma no_divisor_among_iff: "no_divisor_among n is \<longleftrightarrow> (\<forall>i\<in>set is. n mod i \<noteq> 0)"
  by (induction "is") auto

text \<open>
  Claim C10. For every integer \<open>n\<close> with \<open>0 \<le> n \<le> 1000000\<close>, \<^verbatim>\<open>is_prime_simple(n)\<close> returns
  true if and only if \<open>n\<close> is prime, the float computation \<^verbatim>\<open>int(n**0.5)\<close> being exact at
  \<open>n\<close> (it is the integer square root of \<open>n\<close>).
\<close>

theorem is_prime_simple_exact:
  assumes "0 \<le> n" "n \<le> 1000000" "pow_half n = Inr (exact_isqrt n)"
  shows "is_prime_simple pow_half n = Inr (prime_int n)"
proof -
  consider "n < 2" | "n = 2" | "2 < n" "even n" | "3 \<le> n" "odd n"
    by (cases "even n") (auto; linarith)+
  then show ?thesis
  proof cases
    case 1
    then show ?thesis by (simp add: is_prime_simple_def prime_int_def)
  next
    case 2
    then show ?thesis by (simp add: is_prime_simple_def prime_int_def)
  next
    case 3
    then have "\<not> prime_int n" by (auto simp: prime_int_def intro!: bexI [of _ 2])
    moreover have "n mod 2 = 0" using 3 by presburger
    ultimately show ?thesis using 3 by (simp add: is_prime_simple_def)
  next
    case 4
    define s where "s = exact_isqrt n"
    define m where "m = min (s + 1) SMALL_PRIME_LIMIT"
    from exact_isqrt_correct [OF assms(1)]
    have s: "0 \<le> s" "s * s \<le> n" "n < (s + 1) * (s + 1)" by (simp_all add: s_def)
    have nodd: "n mod 2 \<noteq> 0" using 4 by presburger
    have run: "is_prime_simple pow_half n = Inr (\<forall>i\<in>set (range_py 3 m 2). n mod i \<noteq> 0)"
      using 4 nodd assms(3) by (simp add: is_prime_simple_def no_divisor_among_iff s_def m_def)
    have "s < n"
    proof (rule ccontr)
      assume "\<not> s < n"
      then have "n \<le> s" by simp
      then have "n * n \<le> s * s" using assms(1) by (intro mult_mono) auto
      moreover have "n < n * n" using 4 by (simp add: mult_less_cancel_left2)
      ultimately show False using s(2) by simp
    qed
    have "(\<forall>i\<in>set (range_py 3 m 2). n mod i \<noteq> 0) \<longleftrightarrow> prime_int n"
    proof
      assume nd: "\<forall>i\<in>set (range_py 3 m 2). n mod i \<noteq> 0"
      have nodiv: "\<forall>d. 2 \<le> d \<and> d < m \<longrightarrow> \<not> d dvd n"
      proof (intro allI impI)
        fix d assume d: "2 \<le> d \<and> d < m"
        show "\<not> d dvd n"
        proof (cases "even d")
          case True
          then show ?thesis using 4 by (meson dvd_trans)
        next
          case False
          then have "3 \<le> d" "(d - 3) mod 2 = 0" using d by presburger+
          then have "d \<in> set (range_py 3 m 2)" using d by (simp add: set_range_py)
          with nd have "n mod d \<noteq> 0" by auto
          then show ?thesis by (simp add: dvd_eq_mod_eq_0)
        qed
      qed
      have "n < 1000000" using assms(2) 4 by (cases "n = 1000000") auto
      then have "n < SMALL_PRIME_LIMIT * SMALL_PRIME_LIMIT" by (simp add: SMALL_PRIME_LIMIT_def)
      then have "n < m * m" using s(3) by (simp add: m_def min_def)
      moreover have "0 \<le> m" using s(1) by (simp add: m_def SMALL_PRIME_LIMIT_def)
      ultimately show "prime_int n"
        using no_small_divisor_prime [of n m] 4 nodiv by simp
    next
      assume p: "prime_int n"
      show "\<forall>i\<in>set (range_py 3 m 2). n mod i \<noteq> 0"
      proof
        fix i assume "i \<in> set (range_py 3 m 2)"
        then have "3 \<le> i" "i < m" by (simp_all add: set_range_py)
        then have "i \<in> {2..<n}" using \<open>s < n\<close> by (simp add: m_def)
        with p have "\<not> i dvd n" by (simp add: prime_int_def)
        then show "n mod i \<noteq> 0" by (simp add: dvd_eq_mod_eq_0)
      qed
    qed
    with run show ?thesis by simp
  qed
qed

theorem is_prime_simple_exact_witness:
  "is_prime_simple ideal_pow_half 97 = Inr True \<and> prime_int 97
   \<and> is_prime_simple ideal_pow_half 91 = Inr False \<and> \<not> prime_int 91"
proof -
  have a: "is_prime_simple ideal_pow_half 97 = Inr True"
    by code_simp
  have b: "is_prime_simple ideal_pow_half 91 = Inr False"
    by code_simp
  from is_prime_simple_exact [of 97 ideal_pow_half] a have c: "prime_int 97"
    by (simp add: ideal_pow_half_def)
  from is_prime_simple_exact [of 91 ideal_pow_half] b have d: "\<not> prime_int 91"
    by (simp add: ideal_pow_half_def)
  from a b c d show ?thesis by simp
qed

section \<open>Verification: a run of Pollard's rho that exhausts its budget\<close>

lemma modpow_correct: "modpow a e n = a ^ e mod n"
proof (induction a e n rule: modpow.induct)
  case (1 a e n)
  show ?case
  proof (cases "e = 0")
    case True
    then show ?thesis by (subst modpow.simps) simp
  next
    case False
    show ?thesis
    proof (cases "even e")
      case True
      then obtain k where k: "e = 2 * k" by (auto elim: evenE)
      have "modpow a e n = (modpow a (e div 2) n * modpow a (e div 2) n) mod n"
        using False True by (subst modpow.simps) (simp add: Let_def)
      also have "\<dots> = ((a ^ k mod n) * (a ^ k mod n)) mod n"
        using "1.IH"(1) [OF False True] k by simp
      also have "\<dots> = (a ^ k * a ^ k) mod n" by (simp add: mod_mult_eq)
      also have "\<dots> = a ^ e mod n" unfolding k by (simp add: power_add [symmetric] mult_2)
      finally show ?thesis .
    next
      case odd: False
      then obtain k where k: "e = Suc k" using False by (cases e) auto
      have "modpow a e n = (a * modpow a (e - 1) n) mod n"
        using False odd by (subst modpow.simps) simp
      also have "\<dots> = (a * (a ^ k mod n)) mod n"
        using "1.IH"(2) [OF False odd] k by simp
      also have "\<dots> = a ^ e mod n" unfolding k by (simp add: mod_mult_right_eq)
      finally show ?thesis .
    qed
  qed
qed

lemma prime_int_gcd:
  assumes "prime_int p" "\<not> p dvd a"
  shows "gcd a p = 1"
proof -
  define g where "g = gcd a p"
  have p2: "2 \<le> p" using assms(1) by (simp add: prime_int_def)
  have gp: "g dvd p" and ga: "g dvd a" by (simp_all add: g_def)
  have "0 \<le> g" by (simp add: g_def)
  moreover have "g \<noteq> 0" using p2 by (auto simp: g_def)
  ultimately have g1: "1 \<le> g" by simp
  have "g \<le> p" using gp p2 by (intro zdvd_imp_le) auto
  moreover have "g \<noteq> p" using ga assms(2) by auto
  ultimately have "g < p" by simp
  have "\<not> 2 \<le> g"
  proof
    assume "2 \<le> g"
    then have "g \<in> {2..<p}" using \<open>g < p\<close> by simp
    then show False using assms(1) gp by (auto simp: prime_int_def)
  qed
  then show ?thesis using g1 by (simp add: g_def)
qed

lemma prime_int_dvd_mult:
  assumes "prime_int p" "p dvd a * b"
  shows "p dvd a \<or> p dvd b"
proof (cases "p dvd a")
  case False
  from prime_int_gcd [OF assms(1) this] have "coprime p a"
    by (simp add: coprime_iff_gcd_eq_1 gcd.commute)
  then show ?thesis using assms(2) by (simp add: coprime_dvd_mult_right_iff)
qed simp

lemma prime_int_dvd_power:
  assumes "prime_int p" "p dvd a ^ k"
  shows "p dvd a"
  using assms(2)
proof (induction k)
  case 0
  then have "p dvd 1" by simp
  then have "\<bar>p\<bar> = 1" by simp
  then show ?case using assms(1) by (simp add: prime_int_def)
next
  case (Suc k)
  then have "p dvd a * a ^ k" by simp
  from prime_int_dvd_mult [OF assms(1) this] Suc.IH show ?case by blast
qed

lemma power_gcd_one:
  fixes a n :: int
  shows "a ^ m mod n = 1 \<Longrightarrow> a ^ k mod n = 1 \<Longrightarrow> a ^ gcd m k mod n = 1"
proof (induction m k rule: gcd_nat_induct)
  case (base m)
  then show ?case by simp
next
  case (step m k)
  have one: "1 mod n = 1"
  proof -
    have "(a ^ k mod n) mod n = a ^ k mod n" by simp
    then show ?thesis using step.prems(2) by simp
  qed
  have "(a ^ k) ^ (m div k) mod n = (a ^ k mod n) ^ (m div k) mod n"
    by (simp add: power_mod)
  then have pk: "(a ^ k) ^ (m div k) mod n = 1"
    using step.prems(2) one by simp
  have "a ^ m = (a ^ k) ^ (m div k) * a ^ (m mod k)"
    by (simp add: power_mult [symmetric] power_add [symmetric])
  then have "a ^ m mod n = ((a ^ k) ^ (m div k) mod n * a ^ (m mod k)) mod n"
    by (simp only: mod_mult_left_eq)
  then have "a ^ (m mod k) mod n = 1" using step.prems(1) pk by simp
  from step.IH [OF step.prems(2) this] show ?case
    by (simp add: gcd.commute gcd_red_nat [symmetric])
qed

lemma trial_division_prime:
  assumes "trial_division n = Some [n]" "2 \<le> n"
  shows "prime_int n"
  using trial_division_spec [OF assms(2)] assms(1) by auto

lemma prime_int_nat_dvd:
  assumes "prime_int (int q)" "g dvd q"
  shows "g = 1 \<or> g = q"
proof (rule ccontr)
  assume n: "\<not> (g = 1 \<or> g = q)"
  have q2: "2 \<le> q" using assms(1) by (simp add: prime_int_def)
  have "g \<noteq> 0"
  proof
    assume "g = 0"
    with assms(2) have "q = 0" by simp
    with q2 show False by simp
  qed
  moreover have "g \<le> q" using assms(2) q2 by (intro dvd_imp_le) auto
  ultimately have "int g \<in> {2..<int q}" using n by auto
  moreover have "int g dvd int q" using assms(2) by simp
  ultimately show False using assms(1) unfolding prime_int_def by blast
qed

lemma mod_one_iff_dvd:
  fixes p :: int
  assumes "2 \<le> p"
  shows "a mod p = 1 \<longleftrightarrow> p dvd a - 1"
proof -
  have "1 mod p = 1" using assms by simp
  then have "a mod p = 1 \<longleftrightarrow> a mod p = 1 mod p" by simp
  also have "\<dots> \<longleftrightarrow> p dvd a - 1" by (rule mod_eq_dvd_iff)
  finally show ?thesis .
qed

lemma collision_dvd:
  fixes p t s :: int
  assumes "prime_int p" "t * s mod p = 1"
    "(t ^ e + s ^ e) mod p = (t ^ f + s ^ f) mod p"
  shows "p dvd t ^ e - t ^ f \<or> p dvd t ^ (e + f) - 1"
proof -
  have p2: "2 \<le> p" using assms(1) by (simp add: prime_int_def)
  have inv: "p dvd t ^ k * s ^ k - 1" for k
  proof -
    have "(t * s) ^ k mod p = (t * s mod p) ^ k mod p" by (simp add: power_mod)
    also have "\<dots> = 1" using assms(2) p2 by simp
    finally have "(t ^ k * s ^ k) mod p = 1" by (simp add: power_mult_distrib)
    then show ?thesis using mod_one_iff_dvd [OF p2] by blast
  qed
  define u u' v v' where "u = t ^ e" and "u' = s ^ e" and "v = t ^ f" and "v' = s ^ f"
  have d: "p dvd (u + u') - (v + v')"
    using assms(3) unfolding u_def u'_def v_def v'_def by (simp only: mod_eq_dvd_iff)
  have iu: "p dvd u * u' - 1" and iv: "p dvd v * v' - 1"
    using inv [of e] inv [of f] by (simp_all add: u_def u'_def v_def v'_def)
  have "(u - v) * (u * v - 1) = u * v * ((u + u') - (v + v')) - (u * u' - 1) * v + u * (v * v' - 1)"
    by (simp add: algebra_simps)
  moreover have "p dvd u * v * ((u + u') - (v + v')) - (u * u' - 1) * v + u * (v * v' - 1)"
  proof -
    have a: "p dvd u * v * ((u + u') - (v + v'))" using d by (rule dvd_mult)
    have b: "p dvd (u * u' - 1) * v" using iu by (rule dvd_mult2)
    have c: "p dvd u * (v * v' - 1)" using iv by (rule dvd_mult)
    from a b c show ?thesis by (intro dvd_add dvd_diff)
  qed
  ultimately have "p dvd (u - v) * (u * v - 1)" by simp
  from prime_int_dvd_mult [OF assms(1) this]
  show ?thesis by (simp add: u_def v_def power_add)
qed

lemma order_dvd:
  fixes p t :: int
  assumes "prime_int (int q)" "t ^ q mod p = 1" "t mod p \<noteq> 1" "t ^ m mod p = 1"
  shows "q dvd m"
proof -
  from power_gcd_one [OF assms(4) assms(2)] have g: "t ^ gcd m q mod p = 1" .
  have "gcd m q \<noteq> 1" using g assms(3) by auto
  with prime_int_nat_dvd [OF assms(1), of "gcd m q"] have "gcd m q = q" by simp
  then show ?thesis by (metis gcd_dvd1)
qed

lemma collision_power_one:
  fixes p t s :: int
  assumes "prime_int p" "t * s mod p = 1" "e < f"
    "(t ^ e + s ^ e) mod p = (t ^ f + s ^ f) mod p"
  shows "t ^ (f - e) mod p = 1 \<or> t ^ (e + f) mod p = 1"
proof -
  have p2: "2 \<le> p" using assms(1) by (simp add: prime_int_def)
  have nt: "\<not> p dvd t"
  proof
    assume "p dvd t"
    then have "p dvd t * s" by simp
    then have "t * s mod p = 0" by simp
    with assms(2) show False by simp
  qed
  from collision_dvd [OF assms(1,2,4)]
  show ?thesis
  proof
    assume "p dvd t ^ e - t ^ f"
    moreover have "t ^ f = t ^ e * t ^ (f - e)"
      using assms(3) by (simp add: power_add [symmetric])
    ultimately have "p dvd t ^ e * (1 - t ^ (f - e))" by (simp add: algebra_simps)
    from prime_int_dvd_mult [OF assms(1) this] nt prime_int_dvd_power [OF assms(1), of t e]
    have "p dvd 1 - t ^ (f - e)" by blast
    then have "p dvd t ^ (f - e) - 1" by (simp add: dvd_diff_commute)
    then show ?thesis using mod_one_iff_dvd [OF p2] by blast
  next
    assume "p dvd t ^ (e + f) - 1"
    then show ?thesis using mod_one_iff_dvd [OF p2] by blast
  qed
qed

lemma no_collision:
  fixes p t s :: int and q r j :: nat
  assumes pp: "prime_int p" and pq: "prime_int (int q)" and pr: "prime_int (int r)"
    and ts: "t * s mod p = 1" and tq: "t ^ q mod p = 1" and t1: "t mod p \<noteq> 1"
    and two: "(2::int) ^ (2 * r) mod int q = 1" and q5: "5 \<le> q"
    and j: "0 < j" "j < r"
  shows "(t ^ (2 ^ j) + s ^ (2 ^ j)) mod p \<noteq> (t ^ (2 ^ (2 * j)) + s ^ (2 ^ (2 * j))) mod p"
proof
  assume eq: "(t ^ (2 ^ j) + s ^ (2 ^ j)) mod p = (t ^ (2 ^ (2 * j)) + s ^ (2 ^ (2 * j))) mod p"
  define e :: nat where "e = 2 ^ j"
  have ee: "(2::nat) ^ (2 * j) = e * e" unfolding e_def by (simp only: mult_2 power_add)
  have e2: "2 \<le> e" using j(1) unfolding e_def by (cases j) auto
  then have lt: "e < e * e" by simp
  have q2: "(2::int) \<le> int q" using q5 by simp
  from eq have "(t ^ e + s ^ e) mod p = (t ^ (e * e) + s ^ (e * e)) mod p"
    by (simp only: ee e_def)
  from collision_power_one [OF pp ts lt this]
  have "t ^ (e * e - e) mod p = 1 \<or> t ^ (e + e * e) mod p = 1" .
  then have "q dvd e * e - e \<or> q dvd e + e * e"
  proof
    assume "t ^ (e * e - e) mod p = 1"
    then show ?thesis using order_dvd [OF pq tq t1] by (intro disjI1)
  next
    assume "t ^ (e + e * e) mod p = 1"
    then show ?thesis using order_dvd [OF pq tq t1] by (intro disjI2)
  qed
  moreover have m1: "e * e - e = e * (e - 1)" by (simp add: algebra_simps)
  moreover have m2: "e + e * e = e * (e + 1)" by simp
  ultimately have "q dvd e * (e - 1) \<or> q dvd e * (e + 1)" by (simp only: m1 m2)
  then have "int q dvd int (e * (e - 1)) \<or> int q dvd int (e * (e + 1))"
    by (simp only: of_nat_dvd_iff)
  then have "int q dvd int e * int (e - 1) \<or> int q dvd int e * int (e + 1)"
    by (simp only: of_nat_mult)
  moreover have "\<not> int q dvd int e"
  proof
    assume "int q dvd int e"
    then have "int q dvd 2 ^ j" by (simp add: e_def)
    from prime_int_dvd_power [OF pq this] have "int q dvd 2" .
    then have "int q \<le> 2" by (intro zdvd_imp_le) auto
    with q5 show False by simp
  qed
  ultimately have "int q dvd int (e - 1) \<or> int q dvd int (e + 1)"
    using prime_int_dvd_mult [OF pq] by blast
  moreover have i1: "int (e - 1) = int e - 1" using e2 by simp
  moreover have i2: "int (e + 1) = int e + 1" by simp
  ultimately have "int q dvd int e - 1 \<or> int q dvd int e + 1" by (simp only: i1 i2)
  then have "int q dvd (int e - 1) * (int e + 1)"
  proof
    assume "int q dvd int e - 1"
    then show ?thesis by (rule dvd_mult2)
  next
    assume "int q dvd int e + 1"
    then show ?thesis by (rule dvd_mult)
  qed
  moreover have "(int e - 1) * (int e + 1) = 2 ^ (2 * j) - 1"
  proof -
    have "int e * int e = int (2 ^ (2 * j))" by (simp only: ee of_nat_mult)
    then have "int e * int e = 2 ^ (2 * j)" by simp
    moreover have "(int e - 1) * (int e + 1) = int e * int e - 1" by (simp add: algebra_simps)
    ultimately show ?thesis by simp
  qed
  ultimately have "int q dvd 2 ^ (2 * j) - 1" by simp
  then have "(2::int) ^ (2 * j) mod int q = 1"
    using mod_one_iff_dvd [OF q2] by blast
  from power_gcd_one [OF this two] have g: "(2::int) ^ gcd (2 * j) (2 * r) mod int q = 1" .
  have "gcd j r = 1"
  proof -
    have "gcd j r \<noteq> r"
    proof
      assume "gcd j r = r"
      then have "r dvd j" using gcd_dvd1 [of j r] by simp
      then have "r \<le> j" using j(1) by (intro dvd_imp_le) auto
      with j(2) show False by simp
    qed
    with prime_int_nat_dvd [OF pr, of "gcd j r"] show ?thesis by simp
  qed
  then have "2 * gcd j r = 2" by simp
  then have g2: "gcd (2 * j) (2 * r) = 2" by (simp only: gcd_mult_distrib_nat)
  from g have "(2::int) ^ 2 mod int q = 1" by (simp only: g2)
  then have "(4::int) mod int q = 1" by simp
  moreover have "(4::int) mod int q = 4" using q5 by simp
  ultimately show False by simp
qed

lemma chebyshev_orbit:
  fixes p t s c :: int
  assumes "2 \<le> p" "t * s mod p = 1" "c = p - 2"
  shows "((\<lambda>x. (x * x + c) mod p) ^^ k) ((t + s) mod p) = (t ^ (2 ^ k) + s ^ (2 ^ k)) mod p"
proof (induction k)
  case 0
  show ?case by simp
next
  case (Suc k)
  define e :: nat where "e = 2 ^ k"
  define a where "a = t ^ e + s ^ e"
  have inv: "p dvd t ^ e * s ^ e - 1"
  proof -
    have "(t * s) ^ e mod p = (t * s mod p) ^ e mod p" by (simp add: power_mod)
    also have "\<dots> = 1" using assms(1,2) by simp
    finally have "(t ^ e * s ^ e) mod p = 1" by (simp add: power_mult_distrib)
    then show ?thesis using mod_one_iff_dvd [OF assms(1)] by blast
  qed
  have "((\<lambda>x. (x * x + c) mod p) ^^ Suc k) ((t + s) mod p) = ((a mod p) * (a mod p) + c) mod p"
    using Suc.IH by (simp add: a_def e_def)
  also have "\<dots> = ((a mod p * (a mod p)) mod p + c) mod p"
    by (simp only: mod_add_left_eq)
  also have "\<dots> = ((a * a) mod p + c) mod p"
    by (simp only: mod_mult_eq)
  also have "\<dots> = (a * a + c) mod p"
    by (simp only: mod_add_left_eq)
  also have "\<dots> = (t ^ (2 * e) + s ^ (2 * e)) mod p"
  proof -
    define u v where "u = t ^ e" and "v = s ^ e"
    have sq: "t ^ (2 * e) = u * u" "s ^ (2 * e) = v * v"
      by (simp_all add: u_def v_def mult_2 power_add)
    have "((u + v) * (u + v) + (p - 2)) - (u * u + v * v) = 2 * (u * v - 1) + p"
      by (simp add: algebra_simps)
    then have "(a * a + c) - (t ^ (2 * e) + s ^ (2 * e)) = 2 * (t ^ e * s ^ e - 1) + p"
      unfolding sq a_def assms(3) by (simp only: u_def v_def)
    moreover have "p dvd 2 * (t ^ e * s ^ e - 1) + p"
    proof -
      have "p dvd 2 * (t ^ e * s ^ e - 1)" using inv by (rule dvd_mult)
      then show ?thesis by (rule dvd_add) simp
    qed
    ultimately have "p dvd (a * a + c) - (t ^ (2 * e) + s ^ (2 * e))" by simp
    then show ?thesis by (simp only: mod_eq_dvd_iff)
  qed
  also have "2 * e = 2 ^ Suc k" by (simp add: e_def)
  finally show ?case .
qed

lemma pollard_loop_exhausts:
  assumes "\<forall>j. 0 < j \<and> j \<le> K \<longrightarrow>
      gcd_py \<bar>((\<lambda>x. (x * x + c) mod n) ^^ j) x - ((\<lambda>x. (x * x + c) mod n) ^^ (2 * j)) y\<bar> n = 1"
    and "max_iterations = iteration + int K"
  shows "pollard_loop n c max_iterations x y 1 iteration = 1"
  using assms
proof (induction K arbitrary: x y iteration)
  case 0
  then show ?case by (subst pollard_loop.simps) simp
next
  case (Suc K)
  let ?f = "\<lambda>x. (x * x + c) mod n"
  have lt: "iteration < max_iterations" using Suc.prems(2) by simp
  have "gcd_py \<bar>(?f ^^ 1) x - (?f ^^ (2 * 1)) y\<bar> n = 1"
    using Suc.prems(1) by (intro Suc.prems(1) [rule_format]) simp
  then have d1: "gcd_py \<bar>?f x - ?f (?f y)\<bar> n = 1" by (simp add: numeral_2_eq_2)
  have step: "pollard_loop n c max_iterations x y 1 iteration
      = pollard_loop n c max_iterations (?f x) (?f (?f y)) 1 (iteration + 1)"
    using lt d1 by (subst pollard_loop.simps) (simp add: Let_def)
  have "\<forall>j. 0 < j \<and> j \<le> K \<longrightarrow> gcd_py \<bar>(?f ^^ j) (?f x) - (?f ^^ (2 * j)) (?f (?f y))\<bar> n = 1"
  proof (intro allI impI)
    fix j assume j: "0 < j \<and> j \<le> K"
    have a: "(?f ^^ j) (?f x) = (?f ^^ Suc j) x" by (simp only: funpow_Suc_right o_apply)
    have "2 * Suc j = Suc (Suc (2 * j))" by simp
    then have b: "(?f ^^ (2 * j)) (?f (?f y)) = (?f ^^ (2 * Suc j)) y"
      by (simp only: funpow_Suc_right o_apply)
    from Suc.prems(1) [rule_format, of "Suc j"] j
    show "gcd_py \<bar>(?f ^^ j) (?f x) - (?f ^^ (2 * j)) (?f (?f y))\<bar> n = 1"
      unfolding a b by simp
  qed
  from Suc.IH [OF this, of "iteration + 1"] Suc.prems(2)
  have "pollard_loop n c max_iterations (?f x) (?f (?f y)) 1 (iteration + 1) = 1" by simp
  with step show ?case by simp
qed

lemma stuck_gcd:
  fixes p t s c :: int and q r j :: nat
  assumes pp: "prime_int p" and pq: "prime_int (int q)" and pr: "prime_int (int r)"
    and ts: "t * s mod p = 1" and tq: "t ^ q mod p = 1" and t1: "t mod p \<noteq> 1"
    and two: "(2::int) ^ (2 * r) mod int q = 1" and q5: "5 \<le> q"
    and c: "c = p - 2" and j: "0 < j" "j < r"
  shows "gcd_py \<bar>((\<lambda>x. (x * x + c) mod p) ^^ j) ((t + s) mod p)
               - ((\<lambda>x. (x * x + c) mod p) ^^ (2 * j)) ((t + s) mod p)\<bar> p = 1"
proof -
  have p2: "2 \<le> p" using pp by (simp add: prime_int_def)
  define a where "a = (t ^ (2 ^ j) + s ^ (2 ^ j)) mod p"
  define b where "b = (t ^ (2 ^ (2 * j)) + s ^ (2 ^ (2 * j))) mod p"
  have oa: "((\<lambda>x. (x * x + c) mod p) ^^ j) ((t + s) mod p) = a"
    unfolding a_def by (rule chebyshev_orbit [OF p2 ts c])
  have ob: "((\<lambda>x. (x * x + c) mod p) ^^ (2 * j)) ((t + s) mod p) = b"
    unfolding b_def by (rule chebyshev_orbit [OF p2 ts c])
  have ne: "a \<noteq> b"
    unfolding a_def b_def by (rule no_collision [OF pp pq pr ts tq t1 two q5 j])
  have ra: "0 \<le> a" "a < p" and rb: "0 \<le> b" "b < p"
    using p2 by (simp_all add: a_def b_def)
  have "0 < \<bar>a - b\<bar>" "\<bar>a - b\<bar> < p" using ne ra rb by auto
  then have "\<not> p dvd \<bar>a - b\<bar>" by (rule zdvd_not_zless)
  from prime_int_gcd [OF pp this] have "gcd \<bar>a - b\<bar> p = 1" .
  moreover have "gcd_py \<bar>a - b\<bar> p = gcd \<bar>a - b\<bar> p"
    using p2 by (intro gcd_py_eq_gcd) auto
  ultimately show ?thesis by (simp only: oa ob)
qed

lemma pollard_loop_stuck:
  fixes p t s c :: int and q r K :: nat
  assumes pp: "prime_int p" and pq: "prime_int (int q)" and pr: "prime_int (int r)"
    and ts: "t * s mod p = 1" and tq: "t ^ q mod p = 1" and t1: "t mod p \<noteq> 1"
    and two: "(2::int) ^ (2 * r) mod int q = 1" and q5: "5 \<le> q"
    and c: "c = p - 2" and K: "K < r" "max_iterations = int K"
  shows "pollard_loop p c max_iterations ((t + s) mod p) ((t + s) mod p) 1 0 = 1"
proof (rule pollard_loop_exhausts [where K = K])
  show "\<forall>j. 0 < j \<and> j \<le> K \<longrightarrow>
      gcd_py \<bar>((\<lambda>x. (x * x + c) mod p) ^^ j) ((t + s) mod p)
               - ((\<lambda>x. (x * x + c) mod p) ^^ (2 * j)) ((t + s) mod p)\<bar> p = 1"
  proof (intro allI impI)
    fix j assume "0 < j \<and> j \<le> K"
    then have "0 < j" "j < r" using K(1) by simp_all
    then show "gcd_py \<bar>((\<lambda>x. (x * x + c) mod p) ^^ j) ((t + s) mod p)
               - ((\<lambda>x. (x * x + c) mod p) ^^ (2 * j)) ((t + s) mod p)\<bar> p = 1"
      by (rule stuck_gcd [OF pp pq pr ts tq t1 two q5 c])
  qed
  show "max_iterations = 0 + int K" using K(2) by simp
qed

lemma stuck_loop: "pollard_loop 1606457 1606455 100000 1550236 1550236 1 0 = 1"
proof -
  have pp: "prime_int 1606457"
  proof (rule trial_division_prime)
    show "trial_division 1606457 = Some [1606457]" by code_simp
  qed simp
  have "prime_int 200807"
  proof (rule trial_division_prime)
    show "trial_division 200807 = Some [200807]" by code_simp
  qed simp
  then have pq: "prime_int (int 200807)" by simp
  have "prime_int 100403"
  proof (rule trial_division_prime)
    show "trial_division 100403 = Some [100403]" by code_simp
  qed simp
  then have pr: "prime_int (int 100403)" by simp
  have ts: "(256::int) * 1549980 mod 1606457 = 1" by simp
  have "modpow 256 200807 1606457 = 1" by (simp add: modpow.simps Let_def)
  then have tq: "(256::int) ^ 200807 mod 1606457 = 1" by (simp only: modpow_correct)
  have t1: "(256::int) mod 1606457 \<noteq> 1" by simp
  have "modpow 2 200806 200807 = 1" by (simp add: modpow.simps Let_def)
  then have "(2::int) ^ 200806 mod 200807 = 1" by (simp only: modpow_correct)
  moreover have "(200806::nat) = 2 * 100403" "(200807::int) = int 200807" by simp_all
  ultimately have two: "(2::int) ^ (2 * 100403) mod int 200807 = 1" by (simp only:)
  have q5: "5 \<le> (200807::nat)" by simp
  have c: "(1606455::int) = 1606457 - 2" by simp
  have K: "(100000::nat) < 100403" "(100000::int) = int 100000" by simp_all
  have x0: "((256::int) + 1549980) mod 1606457 = 1550236" by simp
  from pollard_loop_stuck [OF pp pq pr ts tq t1 two q5 c K]
  show ?thesis by (simp only: x0)
qed

lemma stuck_pollard_rho:
  assumes "rs 0 = 1550234" "rs (Suc 0) = 1606454"
  shows "pollard_rho 1606457 100000 rs = (Inr (Some 1), \<lambda>i. rs (Suc (Suc i)))"
  using assms by (simp add: pollard_rho_def randint_def stuck_loop)

lemma stuck_draws_period:
  "(\<lambda>i. (\<lambda>i. if even i then 1550234 else 1606454 :: int) (Suc (Suc i)))
     = (\<lambda>i. if even i then 1550234 else 1606454)"
  by (rule ext) simp

lemma stuck_factorize_step:
  "pollard_rho_factorize (Suc depth) ideal_pow_half 1606457 (\<lambda>i. if even i then 1550234 else 1606454)
     = (case pollard_rho_factorize depth ideal_pow_half 1 (\<lambda>i. if even i then 1550234 else 1606454) of
          None \<Rightarrow> None
        | Some (Inl e, rs2) \<Rightarrow> Some (Inl e, rs2)
        | Some (Inr fs1, rs2) \<Rightarrow>
            (case pollard_rho_factorize depth ideal_pow_half 1606457 rs2 of
               None \<Rightarrow> None
             | Some (Inl e, rs3) \<Rightarrow> Some (Inl e, rs3)
             | Some (Inr fs2, rs3) \<Rightarrow> Some (Inr (sort (fs1 @ fs2)), rs3)))"
proof -
  have pr: "pollard_rho 1606457 100000 (\<lambda>i. if even i then 1550234 else 1606454)
      = (Inr (Some 1), \<lambda>i. if even i then 1550234 else 1606454)"
    by (subst stuck_pollard_rho) simp_all
  show ?thesis
    by (simp add: ideal_pow_half_def PRIME_THRESHOLD_def pr
        split: option.splits sum.splits prod.splits)
qed

lemma factorize_never_returns:
  "pollard_rho_factorize depth ideal_pow_half 1606457 (\<lambda>i. if even i then 1550234 else 1606454) = None"
proof (induction depth)
  case 0
  show ?case by simp
next
  case (Suc depth)
  show ?case
  proof (cases depth)
    case 0
    then show ?thesis by (simp only: stuck_factorize_step pollard_rho_factorize.simps(1) option.case)
  next
    case (Suc d)
    then have "pollard_rho_factorize depth ideal_pow_half 1 (\<lambda>i. if even i then 1550234 else 1606454)
        = Some (Inr [], \<lambda>i. if even i then 1550234 else 1606454)" by simp
    then show ?thesis using Suc.IH by (simp only: stuck_factorize_step option.case prod.case sum.case)
  qed
qed

text \<open>
  Claim C7 fails on the code. \<^verbatim>\<open>pollard_rho_factorize(1606457)\<close> (a prime above
  \<^verbatim>\<open>PRIME_THRESHOLD\<close>) calls \<^verbatim>\<open>pollard_rho\<close>; when the draws are \<open>x = 1550236\<close> and
  \<open>c = 1606455\<close>, the 100000 iterations of the default budget all end with \<open>d = 1\<close>, so
  \<^verbatim>\<open>pollard_rho\<close> returns 1. This is neither \<^verbatim>\<open>None\<close> nor \<open>n\<close>, so the function calls
  itself on 1 and on \<^verbatim>\<open>n // 1\<close>, which is \<open>n\<close> again: the argument has not become smaller.
  If the same draws come again each time, no recursion depth is enough for a result.
\<close>

theorem pollard_rho_factorize_stuck:
  "fst (pollard_rho 1606457 100000 (\<lambda>i. if even i then 1550234 else 1606454)) = Inr (Some 1)
   \<and> 1606457 div 1 = (1606457::int)
   \<and> pollard_rho_factorize depth ideal_pow_half 1606457
        (\<lambda>i. if even i then 1550234 else 1606454) = None"
proof -
  have "fst (pollard_rho 1606457 100000 (\<lambda>i. if even i then 1550234 else 1606454)) = Inr (Some 1)"
    by (subst stuck_pollard_rho) simp_all
  then show ?thesis using factorize_never_returns [of depth] by simp
qed

section \<open>Verification: the factors that are reported\<close>

lemma exact_isqrt_square:
  assumes "0 \<le> b"
  shows "exact_isqrt (b * b) = b"
proof -
  define s where "s = exact_isqrt (b * b)"
  have "0 \<le> b * b" by simp
  from exact_isqrt_correct [OF this]
  have s: "0 \<le> s" "s * s \<le> b * b" "b * b < (s + 1) * (s + 1)" by (simp_all add: s_def)
  have "s\<^sup>2 \<le> b\<^sup>2" using s(2) by (simp add: power2_eq_square)
  then have "s \<le> b" using assms by (rule power2_le_imp_le)
  moreover have "b\<^sup>2 < (s + 1)\<^sup>2" using s(3) by (simp add: power2_eq_square)
  then have "b < s + 1" using s(1) by (intro power2_less_imp_less [of b "s + 1"]) auto
  ultimately show ?thesis by (simp add: s_def)
qed

lemma ideal_ceil_sqrt_le:
  assumes "0 \<le> n" "0 \<le> a" "n \<le> a * a"
  shows "\<exists>c. ideal_ceil_sqrt n = Inr c \<and> c \<le> a \<and> n \<le> c * c \<and> 0 \<le> c"
proof -
  define s where "s = exact_isqrt n"
  from exact_isqrt_correct [OF assms(1)]
  have s: "0 \<le> s" "s * s \<le> n" "n < (s + 1) * (s + 1)" by (simp_all add: s_def)
  show ?thesis
  proof (cases "s * s = n")
    case True
    then have "ideal_ceil_sqrt n = Inr s" using assms(1) by (simp add: ideal_ceil_sqrt_def s_def)
    moreover have "s\<^sup>2 \<le> a\<^sup>2" using True assms(3) by (simp add: power2_eq_square)
    then have "s \<le> a" using assms(2) by (rule power2_le_imp_le)
    ultimately show ?thesis using True s(1) by simp
  next
    case False
    then have "ideal_ceil_sqrt n = Inr (s + 1)" using assms(1) by (simp add: ideal_ceil_sqrt_def s_def)
    moreover have "s\<^sup>2 < a\<^sup>2" using False s(2) assms(3) by (simp add: power2_eq_square)
    then have "s < a" using assms(2) by (rule power2_less_imp_less)
    ultimately show ?thesis using s(1,3) by simp
  qed
qed

lemma fermat_loop_no_one:
  "fermat_loop int_sqrt n max_iterations a b_sq iteration = Inr (Some (p, q)) \<Longrightarrow>
    int_sqrt = ideal_int_sqrt \<Longrightarrow> n = u * v \<Longrightarrow> 3 \<le> u \<Longrightarrow> u \<le> v \<Longrightarrow> odd n \<Longrightarrow>
    b_sq = a * a - n \<Longrightarrow> n \<le> a * a \<Longrightarrow> 0 \<le> a \<Longrightarrow> 2 * a \<le> u + v \<Longrightarrow> p \<noteq> 1 \<and> q \<noteq> 1"
proof (induction int_sqrt n max_iterations a b_sq iteration rule: fermat_loop.induct)
  case (1 int_sqrt n max_iterations a b_sq iteration)
  note run = "1.prems"(1) and isq_def = "1.prems"(2) and n = "1.prems"(3) and u = "1.prems"(4,5)
    and odd = "1.prems"(6) and bsq = "1.prems"(7) and nle = "1.prems"(8) and a0 = "1.prems"(9)
    and ale = "1.prems"(10)
  have it: "iteration < max_iterations"
    using run by (subst (asm) fermat_loop.simps) (auto split: if_splits)
  have bsq0: "0 \<le> b_sq" using bsq nle by simp
  define b where "b = exact_isqrt b_sq"
  have isq: "int_sqrt b_sq = Inr b" using bsq0 by (simp add: isq_def ideal_int_sqrt_def b_def)
  have "odd u" "odd v" using odd n by auto
  have "0 < (u - 1) * (v - 1)" using u by (intro mult_pos_pos) auto
  then have small: "u + v < n + 1" unfolding n by (simp add: algebra_simps)
  show ?case
  proof (cases "b * b = b_sq")
    case True
    with run it isq have pq: "p = a - b" "q = a + b"
      by (subst (asm) fermat_loop.simps, simp)+
    have prod: "(a - b) * (a + b) = n"
    proof -
      have "(a - b) * (a + b) = a * a - b * b" by (simp add: algebra_simps)
      then show ?thesis using True bsq by simp
    qed
    have "p \<noteq> 1"
    proof
      assume "p = 1"
      then have "a - b = 1" using pq by simp
      with prod have "a + b = n" by simp
      with \<open>a - b = 1\<close> have "2 * a = n + 1" by simp
      with small ale show False by simp
    qed
    moreover have "q \<noteq> 1"
    proof
      assume "q = 1"
      then have "a + b = 1" using pq by simp
      with prod have "a - b = n" by simp
      with \<open>a + b = 1\<close> have "2 * a = n + 1" by simp
      with small ale show False by simp
    qed
    ultimately show ?thesis by simp
  next
    case False
    have "2 * a \<noteq> u + v"
    proof
      assume eq: "2 * a = u + v"
      define b0 where "b0 = (v - u) div 2"
      have "even (v - u)" using \<open>odd u\<close> \<open>odd v\<close> by simp
      then have b0: "2 * b0 = v - u" by (simp add: b0_def)
      have "0 \<le> b0" using u b0 by simp
      have "(2 * a) * (2 * a) - (2 * b0) * (2 * b0) = 4 * n"
        unfolding eq b0 n by (simp add: algebra_simps)
      then have "a * a - b0 * b0 = n" by (simp add: algebra_simps)
      then have "b_sq = b0 * b0" using bsq by simp
      then have "b = b0" using exact_isqrt_square [OF \<open>0 \<le> b0\<close>] by (simp add: b_def)
      with \<open>b_sq = b0 * b0\<close> False show False by simp
    qed
    then have next_le: "2 * (a + 1) \<le> u + v"
      using ale \<open>odd u\<close> \<open>odd v\<close> by presburger
    have "a * a \<le> (a + 1) * (a + 1)" using a0 by (simp add: algebra_simps)
    then have next_sq: "n \<le> (a + 1) * (a + 1)" using nle by simp
    from run it isq False
    have "fermat_loop int_sqrt n max_iterations (a + 1) ((a + 1) * (a + 1) - n) (iteration + 1)
        = Inr (Some (p, q))"
      by (subst (asm) fermat_loop.simps) simp
    from "1.IH" [OF it isq False this isq_def n u odd refl next_sq _ next_le] a0
    show ?thesis by simp
  qed
qed

lemma fermat_composite_no_one:
  assumes "n = u * v" "2 \<le> u" "u \<le> v"
    and "fermat_factorization ideal_ceil_sqrt ideal_int_sqrt n max_iterations = Inr (Some (p, q))"
  shows "p \<noteq> 1 \<and> q \<noteq> 1"
proof (cases "n mod 2 = 0")
  case True
  with assms(4) have "p = 2" "q = n div 2" by (simp_all add: fermat_factorization_def)
  moreover have "2 * 2 \<le> u * v" using assms(2,3) by (intro mult_mono) auto
  then have "2 \<le> n div 2" using assms(1) by simp
  ultimately show ?thesis by simp
next
  case False
  then have odd: "odd n" by presburger
  then have "odd u" "odd v" using assms(1) by auto
  then have u3: "3 \<le> u" using assms(2) by presburger
  define a0 where "a0 = (u + v) div 2"
  define b0 where "b0 = (v - u) div 2"
  have a0: "2 * a0 = u + v" using \<open>odd u\<close> \<open>odd v\<close> by (simp add: a0_def)
  have b0: "2 * b0 = v - u" using \<open>odd u\<close> \<open>odd v\<close> by (simp add: b0_def)
  have "(2 * a0) * (2 * a0) - (2 * b0) * (2 * b0) = 4 * n"
    unfolding a0 b0 assms(1) by (simp add: algebra_simps)
  then have "a0 * a0 - b0 * b0 = n" by (simp add: algebra_simps)
  then have "n \<le> a0 * a0" using zero_le_square [of b0] by linarith
  moreover have "0 \<le> a0" using a0 assms(2,3) by simp
  moreover have "0 \<le> n" using assms(1,2,3) by simp
  ultimately obtain c where c: "ideal_ceil_sqrt n = Inr c" "c \<le> a0" "n \<le> c * c" "0 \<le> c"
    using ideal_ceil_sqrt_le [of n a0] by blast
  from assms(4) False c(1)
  have "fermat_loop ideal_int_sqrt n max_iterations c (c * c - n) 0 = Inr (Some (p, q))"
    by (simp add: fermat_factorization_def)
  from fermat_loop_no_one [OF this refl assms(1) u3 assms(3) odd refl c(3,4)] c(2) a0
  show ?thesis by simp
qed

lemma fermat_even_no_one:
  assumes "even n" "4 \<le> n"
    and "fermat_factorization ceil_sqrt int_sqrt n max_iterations = Inr (Some (p, q))"
  shows "p \<noteq> 1 \<and> q \<noteq> 1"
proof -
  have "n mod 2 = 0" using assms(1) by presburger
  with assms(3) have "p = 2" "q = n div 2" by (simp_all add: fermat_factorization_def)
  then show ?thesis using assms(2) by simp
qed

text \<open>
  Claim C2, as amended. For every integer \<open>n \<ge> 2\<close>: whenever \<^verbatim>\<open>pollard_rho_factorize\<close> returns
  a list, the product of the list is \<open>n\<close> and every element is at least 2 (so the list is not
  empty and holds no 1), for every outcome of the random draws, every recursion depth and
  whatever the float library returns. Whenever \<^verbatim>\<open>fermat_factorization\<close> returns a pair, the
  product of the pair is \<open>n\<close>, for every iteration budget and whatever the float library
  returns; neither element of the pair is 1 when \<open>n\<close> is even and at least 4, and neither is
  1 when \<open>n\<close> is composite and the float square roots are exact. (The pair holds a 1 for
  \<open>n = 2\<close> and for the prime 7.)
\<close>

theorem reported_factors_multiply:
  assumes "2 \<le> n"
  shows "(pollard_rho_factorize depth pow_half n rs = Some (Inr fs, rs') \<longrightarrow>
            fs \<noteq> [] \<and> prod_list fs = n \<and> (\<forall>f\<in>set fs. 2 \<le> f))
       \<and> (fermat_factorization ceil_sqrt int_sqrt n max_iterations = Inr (Some (p, q)) \<longrightarrow>
            p * q = n \<and> (even n \<and> 4 \<le> n \<longrightarrow> p \<noteq> 1 \<and> q \<noteq> 1))
       \<and> (n = u * v \<and> 2 \<le> u \<and> u \<le> v
            \<and> fermat_factorization ideal_ceil_sqrt ideal_int_sqrt n budget = Inr (Some (p', q')) \<longrightarrow>
            p' * q' = n \<and> p' \<noteq> 1 \<and> q' \<noteq> 1)"
proof (intro conjI impI)
  assume run: "pollard_rho_factorize depth pow_half n rs = Some (Inr fs, rs')"
  from pollard_rho_factorize_result [OF run] assms
  show "prod_list fs = n" and "\<forall>f\<in>set fs. 2 \<le> f" by simp_all
  then show "fs \<noteq> []" using assms by auto
next
  assume "fermat_factorization ceil_sqrt int_sqrt n max_iterations = Inr (Some (p, q))"
  then show "p * q = n" by (rule fermat_factorization_product)
next
  assume run: "fermat_factorization ceil_sqrt int_sqrt n max_iterations = Inr (Some (p, q))"
    and "even n \<and> 4 \<le> n"
  then show "p \<noteq> 1" and "q \<noteq> 1" using fermat_even_no_one [of n ceil_sqrt int_sqrt max_iterations p q]
    by simp_all
next
  assume a: "n = u * v \<and> 2 \<le> u \<and> u \<le> v
     \<and> fermat_factorization ideal_ceil_sqrt ideal_int_sqrt n budget = Inr (Some (p', q'))"
  then have run: "fermat_factorization ideal_ceil_sqrt ideal_int_sqrt n budget = Inr (Some (p', q'))"
    and nuv: "n = u * v" "2 \<le> u" "u \<le> v"
    by blast+
  from run show "p' * q' = n" by (rule fermat_factorization_product)
  from fermat_composite_no_one [OF nuv run] show "p' \<noteq> 1" and "q' \<noteq> 1"
    by blast+
qed

theorem reported_factors_multiply_witness:
  "map_option fst (pollard_rho_factorize 2 ideal_pow_half 15 (\<lambda>i. 0)) = Some (Inr [3, 5])
   \<and> prod_list [3, 5] = (15::int)
   \<and> fermat_factorization ideal_ceil_sqrt ideal_int_sqrt 15 100000 = Inr (Some (3, 5))
   \<and> 3 * 5 = (15::int) \<and> (3::int) \<noteq> 1 \<and> (5::int) \<noteq> 1
   \<and> fermat_factorization ideal_ceil_sqrt ideal_int_sqrt 100 100000 = Inr (Some (2, 50))
   \<and> 2 * 50 = (100::int) \<and> (2::int) \<noteq> 1 \<and> (50::int) \<noteq> 1"
proof -
  have a: "map_option fst (pollard_rho_factorize 2 ideal_pow_half 15 (\<lambda>i. 0)) = Some (Inr [3, 5])"
    by code_simp
  then obtain rs' where a': "pollard_rho_factorize 2 ideal_pow_half 15 (\<lambda>i. 0) = Some (Inr [3, 5], rs')"
    by auto
  have b: "fermat_factorization ideal_ceil_sqrt ideal_int_sqrt 15 100000 = Inr (Some (3, 5))"
    by code_simp
  have c: "fermat_factorization ideal_ceil_sqrt ideal_int_sqrt 100 100000 = Inr (Some (2, 50))"
    by code_simp
  have "(2::int) \<le> 15" by simp
  from reported_factors_multiply [OF this, of 2 ideal_pow_half "\<lambda>i. 0" "[3, 5]" rs'
      ideal_ceil_sqrt ideal_int_sqrt 100000 3 5 3 5 100000 3 5] a' b
  have d: "prod_list [3, 5] = (15::int)" "3 * 5 = (15::int)" "(3::int) \<noteq> 1" "(5::int) \<noteq> 1"
    by simp_all
  have "(2::int) \<le> 100" by simp
  from reported_factors_multiply [OF this, of 0 ideal_pow_half "\<lambda>i. 0" "[]" "\<lambda>i. 0"
      ideal_ceil_sqrt ideal_int_sqrt 100000 2 50 2 50 100000 2 50] c
  have e: "2 * 50 = (100::int)" "(2::int) \<noteq> 1" "(50::int) \<noteq> 1"
    by simp_all
  from a b c d e show ?thesis by simp
qed

end
